theory Spec2Isabelle
  imports Main "HOL-Library.AList"
begin

section \<open>Data model\<close>

text \<open>
  The package is modelled sequentially over an explicit store.  A pointer is an address
  (a natural number), a nillable pointer is an \<open>option\<close> (\<open>None\<close> is \<open>nil\<close>).
  Every heap is a total function from addresses to values together with the number of
  addresses allocated so far; allocation takes the next address.  Locks and atomics have
  no sequential effect and are left out.
\<close>

text \<open>The payload \<open>data any\<close> of a Prop: \<open>nil\<close>, a caller's value, or a \<open>[]any\<close>.\<close>

datatype 'a any = AnyNil | AnyVal 'a | AnySlice "'a any list"

text \<open>\<open>type Prop struct { e atomic.Pointer[Entity]; key string; attached atomic.Bool; data any }\<close>\<close>

record 'a Prop =
  p_e :: "nat option"
  p_key :: string
  p_attached :: bool
  p_data :: "'a any"

text \<open>\<open>type Entity struct { u *Universe; props sync.Map; deleted bool; deleteMu sync.RWMutex }\<close>;
  the \<open>sync.Map\<close> from keys to \<open>*Prop\<close> is an association list.\<close>

record Entity =
  e_u :: "nat option"
  e_props :: "(string \<times> nat) list"
  e_deleted :: bool

text \<open>A Go slice header: the backing array, the offset of element 0 in it, length and capacity.\<close>

record slice =
  s_arr :: nat
  s_off :: nat
  s_len :: nat
  s_cap :: nat

text \<open>\<open>type bucket struct { data []*Prop; mu sync.RWMutex; misses atomic.Int64 }\<close>\<close>

record bucket =
  b_data :: slice
  b_misses :: int

text \<open>
  The store: Props, Entities, the \<open>propDB.data\<close> map of every Universe (a zero Universe is
  usable, so every address is one), buckets, and the backing arrays of the slices
  (cells hold \<open>*Prop\<close>).
\<close>

record 'a world =
  w_props :: "nat \<Rightarrow> 'a Prop"
  w_nprops :: nat
  w_ents :: "nat \<Rightarrow> Entity"
  w_nents :: nat
  w_univs :: "nat \<Rightarrow> string \<Rightarrow> nat option"
  w_buckets :: "nat \<Rightarrow> bucket"
  w_nbuckets :: nat
  w_arrays :: "nat \<Rightarrow> nat \<Rightarrow> nat option"
  w_narrays :: nat

text \<open>A run-time panic: the explicit one of \<open>Put\<close>, a nil dereference, or (in a program
  of the model only) the use of an address that was never allocated.\<close>

datatype fault = PutOnNilEntity | NilDereference | InvalidPointer

definition zeroProp :: "'a Prop" where
  "zeroProp = \<lparr>p_e = None, p_key = [], p_attached = False, p_data = AnyNil\<rparr>"

definition zeroEntity :: Entity where
  "zeroEntity = \<lparr>e_u = None, e_props = [], e_deleted = False\<rparr>"

definition nilSlice :: slice where
  "nilSlice = \<lparr>s_arr = 0, s_off = 0, s_len = 0, s_cap = 0\<rparr>"

definition zeroBucket :: bucket where
  "zeroBucket = \<lparr>b_data = nilSlice, b_misses = 0\<rparr>"

definition emptyWorld :: "'a world" where
  "emptyWorld = \<lparr>w_props = (\<lambda>_. zeroProp), w_nprops = 0,
                  w_ents = (\<lambda>_. zeroEntity), w_nents = 0,
                  w_univs = (\<lambda>_ _. None),
                  w_buckets = (\<lambda>_. zeroBucket), w_nbuckets = 0,
                  w_arrays = (\<lambda>_ _. None), w_narrays = 0\<rparr>"

section \<open>Prop (prop.go)\<close>

definition Prop_Data :: "'a world \<Rightarrow> nat option \<Rightarrow> 'a any" where
  "Prop_Data w p = (case p of None \<Rightarrow> AnyNil | Some a \<Rightarrow> p_data (w_props w a))"

text \<open>The \<open>switch len(data)\<close> of \<open>PutData\<close>.\<close>

definition packData :: "'a any list \<Rightarrow> 'a any" where
  "packData data = (case data of [] \<Rightarrow> AnyNil | [x] \<Rightarrow> x | _ \<Rightarrow> AnySlice data)"

definition putData :: "nat \<Rightarrow> 'a any list \<Rightarrow> 'a world \<Rightarrow> 'a world" where
  "putData a data w = w\<lparr>w_props := (w_props w)(a := (w_props w a)\<lparr>p_data := packData data\<rparr>)\<rparr>"

text \<open>\<open>PutData\<close> has no nil check: the assignment to \<open>p.data\<close> panics on a nil receiver.\<close>

definition Prop_PutData :: "nat option \<Rightarrow> 'a any list \<Rightarrow> 'a world \<Rightarrow> fault + 'a world" where
  "Prop_PutData p data w = (case p of None \<Rightarrow> Inl NilDereference | Some a \<Rightarrow> Inr (putData a data w))"

text \<open>\<open>Key\<close> reads \<open>p.key\<close> with no nil check.\<close>

definition Prop_Key :: "'a world \<Rightarrow> nat option \<Rightarrow> fault + string" where
  "Prop_Key w p = (case p of None \<Rightarrow> Inl NilDereference | Some a \<Rightarrow> Inr (p_key (w_props w a)))"

definition Prop_Entity :: "'a world \<Rightarrow> nat option \<Rightarrow> nat option" where
  "Prop_Entity w p = (case p of None \<Rightarrow> None | Some a \<Rightarrow> p_e (w_props w a))"

definition Prop_Removed :: "'a world \<Rightarrow> nat option \<Rightarrow> bool" where
  "Prop_Removed w p = (case p of None \<Rightarrow> True | Some a \<Rightarrow> \<not> p_attached (w_props w a))"

definition detatch :: "nat \<Rightarrow> 'a world \<Rightarrow> 'a world" where
  "detatch a w = w\<lparr>w_props := (w_props w)(a := (w_props w a)\<lparr>p_attached := False, p_e := None\<rparr>)\<rparr>"

definition attach :: "nat \<Rightarrow> nat option \<Rightarrow> 'a world \<Rightarrow> 'a world" where
  "attach a e w = w\<lparr>w_props := (w_props w)(a := (w_props w a)\<lparr>p_e := e, p_attached := True\<rparr>)\<rparr>"

text \<open>\<open>func (e *Entity) removeKey(key string) { e.props.Delete(key) }\<close>\<close>

definition removeKey :: "nat \<Rightarrow> string \<Rightarrow> 'a world \<Rightarrow> 'a world" where
  "removeKey e key w =
     w\<lparr>w_ents := (w_ents w)(e := (w_ents w e)\<lparr>e_props := AList.delete key (e_props (w_ents w e))\<rparr>)\<rparr>"

definition Prop_Remove :: "nat option \<Rightarrow> 'a world \<Rightarrow> 'a world" where
  "Prop_Remove p w =
     (case p of None \<Rightarrow> w
      | Some a \<Rightarrow>
          detatch a (case p_e (w_props w a) of
                       Some e \<Rightarrow> removeKey e (p_key (w_props w a)) w
                     | None \<Rightarrow> w))"

section \<open>The index (propDB, bucket)\<close>

text \<open>Element \<open>i\<close> of a slice, read from its backing array.\<close>

definition s_at :: "'a world \<Rightarrow> slice \<Rightarrow> nat \<Rightarrow> nat option" where
  "s_at w s i = w_arrays w (s_arr s) (s_off s + i)"

text \<open>The elements a slice shows, in order.\<close>

definition s_elems :: "'a world \<Rightarrow> slice \<Rightarrow> nat option list" where
  "s_elems w s = map (s_at w s) [0..<s_len s]"

text \<open>
  The builtin \<open>append(s, x)\<close>.  With spare capacity the element is written into the
  backing array in place, after the last element.  Otherwise the elements are copied to a
  new array; its capacity is the runtime's choice, at least the new length:
  \<open>grow\<close> (a parameter of the model) gives the slack the runtime adds.
\<close>

definition go_append :: "(nat \<Rightarrow> nat) \<Rightarrow> slice \<Rightarrow> nat option \<Rightarrow> 'a world \<Rightarrow> slice \<times> 'a world" where
  "go_append grow s x w =
     (if s_len s < s_cap s
      then (s\<lparr>s_len := Suc (s_len s)\<rparr>,
            w\<lparr>w_arrays := (w_arrays w)(s_arr s := (w_arrays w (s_arr s))(s_off s + s_len s := x))\<rparr>)
      else (let a = w_narrays w
            in (\<lparr>s_arr = a, s_off = 0, s_len = Suc (s_len s), s_cap = Suc (s_len s) + grow (s_cap s)\<rparr>,
                w\<lparr>w_arrays := (w_arrays w)
                     (a := (\<lambda>i. if i < s_len s then s_at w s i else if i = s_len s then x else None)),
                  w_narrays := Suc a\<rparr>)))"

text \<open>\<open>getOrCreateBucket\<close>: \<open>Load\<close>, and for a new key \<open>LoadOrStore(key, new(bucket))\<close>.\<close>

definition getOrCreateBucket :: "nat \<Rightarrow> string \<Rightarrow> 'a world \<Rightarrow> nat \<times> 'a world" where
  "getOrCreateBucket u key w =
     (case w_univs w u key of
        Some b \<Rightarrow> (b, w)
      | None \<Rightarrow>
          (let b = w_nbuckets w
           in (b, w\<lparr>w_buckets := (w_buckets w)(b := zeroBucket),
                    w_nbuckets := Suc b,
                    w_univs := (w_univs w)(u := (w_univs w u)(key := Some b))\<rparr>)))"

definition propDB_append :: "(nat \<Rightarrow> nat) \<Rightarrow> nat \<Rightarrow> string \<Rightarrow> nat option \<Rightarrow> 'a world \<Rightarrow> 'a world" where
  "propDB_append grow u key prop w =
     (case getOrCreateBucket u key w of
        (b, w1) \<Rightarrow>
          (case go_append grow (b_data (w_buckets w1 b)) prop w1 of
             (s, w2) \<Rightarrow> w2\<lparr>w_buckets := (w_buckets w2)(b := (w_buckets w2 b)\<lparr>b_data := s\<rparr>)\<rparr>))"

section \<open>Entity (entity.go)\<close>

definition loadProp :: "'a world \<Rightarrow> nat option \<Rightarrow> string \<Rightarrow> nat option" where
  "loadProp w e key =
     (case e of None \<Rightarrow> None
      | Some a \<Rightarrow>
          if e_deleted (w_ents w a) then None
          else (case map_of (e_props (w_ents w a)) key of
                  Some x \<Rightarrow> if \<not> Prop_Removed w (Some x) then Some x else None
                | None \<Rightarrow> None))"

text \<open>\<open>Get\<close> and \<open>Has\<close> take the lock of the receiver first; they are modelled for a
  non-nil receiver.\<close>

definition Entity_Get :: "'a world \<Rightarrow> nat \<Rightarrow> string \<Rightarrow> nat option" where
  "Entity_Get w e key = loadProp w (Some e) key"

definition Entity_Has :: "'a world \<Rightarrow> nat \<Rightarrow> string \<Rightarrow> bool" where
  "Entity_Has w e key = (Entity_Get w e key \<noteq> None)"

text \<open>\<open>e.props.Store(key, newProp)\<close>\<close>

definition storeProp :: "nat \<Rightarrow> string \<Rightarrow> nat \<Rightarrow> 'a world \<Rightarrow> 'a world" where
  "storeProp e key p w =
     w\<lparr>w_ents := (w_ents w)(e := (w_ents w e)\<lparr>e_props := AList.update key p (e_props (w_ents w e))\<rparr>)\<rparr>"

text \<open>
  \<open>Put\<close>.  The deferred \<open>prop.PutData(data...)\<close> is registered after the \<open>deleted\<close>
  check and runs on the Prop that is returned, on each of the three returns that follow.
  \<open>LoadOrStore\<close> stores \<open>newProp\<close> when the key is absent; when the key is present and its
  Prop is removed, \<open>Store\<close> overwrites it.  \<open>Put_store\<close> is the tail of \<open>Put\<close> from there:
  the map holds \<open>newProp\<close>, which is appended to the index when the Entity has a Universe.
\<close>

definition Put_store ::
  "(nat \<Rightarrow> nat) \<Rightarrow> nat \<Rightarrow> string \<Rightarrow> nat \<Rightarrow> 'a any list \<Rightarrow> 'a world \<Rightarrow> nat option \<times> 'a world" where
  "Put_store grow a key newProp data w =
     (let w3 = storeProp a key newProp w;
          w4 = (case e_u (w_ents w3 a) of
                  Some u \<Rightarrow> propDB_append grow u key (Some newProp) w3
                | None \<Rightarrow> w3)
      in (Some newProp, putData newProp data w4))"

definition Entity_Put ::
  "(nat \<Rightarrow> nat) \<Rightarrow> nat option \<Rightarrow> string \<Rightarrow> 'a any list \<Rightarrow> 'a world \<Rightarrow> fault + (nat option \<times> 'a world)" where
  "Entity_Put grow e key data w =
     (case e of None \<Rightarrow> Inl PutOnNilEntity
      | Some a \<Rightarrow>
          if e_deleted (w_ents w a) then Inr (None, w)
          else (case loadProp w e key of
                  Some prop \<Rightarrow> Inr (Some prop, putData prop data w)
                | None \<Rightarrow>
                    (let newProp = w_nprops w;
                         w1 = w\<lparr>w_props := (w_props w)(newProp := zeroProp\<lparr>p_key := key\<rparr>),
                                w_nprops := Suc newProp\<rparr>;
                         w2 = attach newProp e w1
                     in (case map_of (e_props (w_ents w2 a)) key of
                           Some x \<Rightarrow>
                             if \<not> Prop_Removed w2 (Some x)
                             then Inr (Some x, putData x data w2)
                             else Inr (Put_store grow a key newProp data w2)
                         | None \<Rightarrow> Inr (Put_store grow a key newProp data w2)))))"

text \<open>\<open>Remove\<close>: \<open>LoadAndDelete\<close>, then \<open>detatch\<close> of the Prop that was loaded.\<close>

definition Entity_Remove :: "nat option \<Rightarrow> string \<Rightarrow> 'a world \<Rightarrow> nat option \<times> 'a world" where
  "Entity_Remove e key w =
     (case e of None \<Rightarrow> (None, w)
      | Some a \<Rightarrow>
          if e_deleted (w_ents w a) then (None, w)
          else (case map_of (e_props (w_ents w a)) key of
                  None \<Rightarrow> (None, w)
                | Some prop \<Rightarrow> (Some prop, detatch prop (removeKey a key w))))"

text \<open>\<open>Delete\<close>: mark deleted, \<open>detatch\<close> every value of the map, drop the map, unlink the
  Universe.\<close>

definition Entity_Delete :: "nat option \<Rightarrow> 'a world \<Rightarrow> 'a world" where
  "Entity_Delete e w =
     (case e of None \<Rightarrow> w
      | Some a \<Rightarrow>
          (let w1 = w\<lparr>w_ents := (w_ents w)(a := (w_ents w a)\<lparr>e_deleted := True\<rparr>)\<rparr>;
               w2 = fold detatch (map snd (e_props (w_ents w1 a))) w1;
               w3 = w2\<lparr>w_ents := (w_ents w2)(a := (w_ents w2 a)\<lparr>e_props := []\<rparr>)\<rparr>
           in w3\<lparr>w_ents := (w_ents w3)(a := (w_ents w3 a)\<lparr>e_u := None\<rparr>)\<rparr>))"

text \<open>\<open>func (u *Universe) Entity() *Entity { return &Entity{u: u} }\<close>\<close>

definition Universe_Entity :: "nat \<Rightarrow> 'a world \<Rightarrow> nat \<times> 'a world" where
  "Universe_Entity u w =
     (let a = w_nents w
      in (a, w\<lparr>w_ents := (w_ents w)(a := zeroEntity\<lparr>e_u := Some u\<rparr>), w_nents := Suc a\<rparr>))"

section \<open>Range and compaction (propDB, bucket)\<close>

text \<open>The callback \<open>fn func(*Prop) bool\<close> of \<open>Range\<close> may call any method of the package:
  it takes the Prop and the store, and returns its result (or a panic) and the store.\<close>

type_synonym 'a callback = "nat option \<Rightarrow> 'a world \<Rightarrow> (fault + bool) \<times> 'a world"

text \<open>What one pass of the loop of \<open>rangeProps\<close> did with an element: counted a miss
  (with the store at that moment), or called \<open>fn\<close> (with the store before the call, the
  result, and the store after it).\<close>

datatype 'a event = Miss "nat option" "'a world" | Call "nat option" "'a world" "fault + bool" "'a world"

definition addMiss :: "nat \<Rightarrow> 'a world \<Rightarrow> 'a world" where
  "addMiss b w = w\<lparr>w_buckets := (w_buckets w)(b := (w_buckets w b)\<lparr>b_misses := b_misses (w_buckets w b) + 1\<rparr>)\<rparr>"

text \<open>
  The loop \<open>for _, e := range data\<close> of \<open>rangeProps\<close>, from index \<open>i\<close>: \<open>data\<close> is the
  slice header copied before the loop, and each element is read from the backing array
  when its turn comes.  The result lists the events of the loop, and holds a panic
  of the callback, if any, and the store.
\<close>

function rangeProps_loop ::
  "'a callback \<Rightarrow> nat \<Rightarrow> slice \<Rightarrow> nat \<Rightarrow> 'a world \<Rightarrow> 'a event list \<times> fault option \<times> 'a world" where
  "rangeProps_loop fn b data i w =
     (if i < s_len data
      then (let e = s_at w data i
            in if Prop_Removed w e
               then (case rangeProps_loop fn b data (Suc i) (addMiss b w) of
                       (evs, r) \<Rightarrow> (Miss e w # evs, r))
               else (case fn e w of
                       (Inr True, w') \<Rightarrow>
                         (case rangeProps_loop fn b data (Suc i) w' of
                            (evs, r) \<Rightarrow> (Call e w (Inr True) w' # evs, r))
                     | (Inr False, w') \<Rightarrow> ([Call e w (Inr False) w'], None, w')
                     | (Inl f, w') \<Rightarrow> ([Call e w (Inl f) w'], Some f, w')))
      else ([], None, w))"
  by pat_completeness auto
termination
  by (relation "measure (\<lambda>(fn, b, data, i, w). s_len data - i)") auto

declare rangeProps_loop.simps [simp del]

definition rangeProps :: "'a callback \<Rightarrow> nat \<Rightarrow> 'a world \<Rightarrow> 'a event list \<times> fault option \<times> 'a world" where
  "rangeProps fn b w = rangeProps_loop fn b (b_data (w_buckets w b)) 0 w"

definition bucketMissesBeforeCompact :: int where
  "bucketMissesBeforeCompact = 500"

text \<open>The slice expressions \<open>s[k:]\<close> and \<open>s[:k]\<close>, an element assignment \<open>s[i] = x\<close>, and
  the builtin \<open>clear(s)\<close>, which sets every element of \<open>s\<close> to nil.\<close>

definition s_from :: "slice \<Rightarrow> nat \<Rightarrow> slice" where
  "s_from s k = \<lparr>s_arr = s_arr s, s_off = s_off s + k, s_len = s_len s - k, s_cap = s_cap s - k\<rparr>"

definition s_upto :: "slice \<Rightarrow> nat \<Rightarrow> slice" where
  "s_upto s k = s\<lparr>s_len := k\<rparr>"

definition s_set :: "slice \<Rightarrow> nat \<Rightarrow> nat option \<Rightarrow> 'a world \<Rightarrow> 'a world" where
  "s_set s i x w = w\<lparr>w_arrays := (w_arrays w)(s_arr s := (w_arrays w (s_arr s))(s_off s + i := x))\<rparr>"

definition s_clear :: "slice \<Rightarrow> 'a world \<Rightarrow> 'a world" where
  "s_clear s w =
     w\<lparr>w_arrays := (w_arrays w)
          (s_arr s := (\<lambda>j. if s_off s \<le> j \<and> j < s_off s + s_len s then None else w_arrays w (s_arr s) j))\<rparr>"

text \<open>
  \<open>slices.CompactFunc(s, eq)\<close> of the Go standard library (\<open>src/slices/slices.go\<close>, as of
  Go 1.22; Go 1.21 compares the same pairs in the same order and only lacks the
  \<open>clear\<close>), which works in place on the backing array of \<open>s\<close>:
  \<^verbatim>\<open>
  if len(s) < 2 { return s }
  for k := 1; k < len(s); k++ {
      if eq(s[k], s[k-1]) {
          s2 := s[k:]
          for k2 := 1; k2 < len(s2); k2++ {
              if !eq(s2[k2], s2[k2-1]) { s[k] = s2[k2]; k++ }
          }
          clear(s[k:])
          return s[:k]
      }
  }
  return s
  \<close>
  The first argument of \<open>eq\<close> is the current element, the second the one before it.
  \<open>eq\<close> reads the store (the closure of \<open>tryCompact\<close> calls \<open>Removed\<close>).
\<close>

function CompactFunc_move ::
  "('a world \<Rightarrow> nat option \<Rightarrow> nat option \<Rightarrow> bool) \<Rightarrow> slice \<Rightarrow> slice \<Rightarrow> nat \<Rightarrow> nat \<Rightarrow> 'a world \<Rightarrow> nat \<times> 'a world" where
  "CompactFunc_move eq s s2 k k2 w =
     (if k2 < s_len s2
      then (if \<not> eq w (s_at w s2 k2) (s_at w s2 (k2 - 1))
            then CompactFunc_move eq s s2 (Suc k) (Suc k2) (s_set s k (s_at w s2 k2) w)
            else CompactFunc_move eq s s2 k (Suc k2) w)
      else (k, w))"
  by pat_completeness auto
termination
  by (relation "measure (\<lambda>(eq, s, s2, k, k2, w). s_len s2 - k2)") auto

declare CompactFunc_move.simps [simp del]

function CompactFunc_scan ::
  "('a world \<Rightarrow> nat option \<Rightarrow> nat option \<Rightarrow> bool) \<Rightarrow> slice \<Rightarrow> nat \<Rightarrow> 'a world \<Rightarrow> slice \<times> 'a world" where
  "CompactFunc_scan eq s k w =
     (if k < s_len s
      then (if eq w (s_at w s k) (s_at w s (k - 1))
            then (case CompactFunc_move eq s (s_from s k) k 1 w of
                    (k', w') \<Rightarrow> (s_upto s k', s_clear (s_from s k') w'))
            else CompactFunc_scan eq s (Suc k) w)
      else (s, w))"
  by pat_completeness auto
termination
  by (relation "measure (\<lambda>(eq, s, k, w). s_len s - k)") auto

declare CompactFunc_scan.simps [simp del]

definition CompactFunc ::
  "('a world \<Rightarrow> nat option \<Rightarrow> nat option \<Rightarrow> bool) \<Rightarrow> slice \<Rightarrow> 'a world \<Rightarrow> slice \<times> 'a world" where
  "CompactFunc eq s w = (if s_len s < 2 then (s, w) else CompactFunc_scan eq s 1 w)"

text \<open>The scan of \<open>tryCompact\<close> to the first Prop that is not removed.\<close>

function scanBegin :: "'a world \<Rightarrow> slice \<Rightarrow> nat \<Rightarrow> nat" where
  "scanBegin w s begin =
     (if begin < s_len s \<and> Prop_Removed w (s_at w s begin) then scanBegin w s (Suc begin) else begin)"
  by pat_completeness auto
termination
  by (relation "measure (\<lambda>(w, s, begin). s_len s - begin)") auto

declare scanBegin.simps [simp del]

definition tryCompact :: "nat \<Rightarrow> 'a world \<Rightarrow> 'a world" where
  "tryCompact b w =
     (if b_misses (w_buckets w b) < bucketMissesBeforeCompact then w
      else (let begin = scanBegin w (b_data (w_buckets w b)) 0
            in (case CompactFunc (\<lambda>w a b. Prop_Removed w b) (s_from (b_data (w_buckets w b)) begin) w of
                  (s, w1) \<Rightarrow> w1\<lparr>w_buckets := (w_buckets w1)(b := (w_buckets w1 b)\<lparr>b_data := s, b_misses := 0\<rparr>)\<rparr>)))"

text \<open>\<open>propDB.Range\<close>.  A panic of the callback leaves \<open>Range\<close> before \<open>tryCompact\<close>.\<close>

definition propDB_Range ::
  "nat \<Rightarrow> string \<Rightarrow> 'a callback \<Rightarrow> 'a world \<Rightarrow> 'a event list \<times> fault option \<times> 'a world" where
  "propDB_Range u key fn w =
     (case w_univs w u key of
        None \<Rightarrow> ([], None, w)
      | Some b \<Rightarrow>
          (case rangeProps fn b w of
             (evs, None, w1) \<Rightarrow> (evs, None, tryCompact b w1)
           | (evs, Some f, w1) \<Rightarrow> (evs, Some f, w1)))"

section \<open>Programs over the package\<close>

text \<open>
  A caller of the package, and a callback of \<open>Range\<close>, is a program: it calls the methods,
  reads the store to decide what to do next (\<open>Read\<close>), runs \<open>Range\<close> with a callback that
  is again a program, and returns a boolean (the callback's answer to \<open>Range\<close>).
  A pointer of a Go program always refers to an allocated object, so a call that names
  an address not yet allocated stops the program with \<open>InvalidPointer\<close>.
\<close>

datatype 'a op =
    NewEntity nat
  | NewZeroEntity
  | NewZeroProp
  | Put "nat option" string "'a any list"
  | Remove "nat option" string
  | Delete "nat option"
  | PropRemove "nat option"
  | PropPutData "nat option" "'a any list"

datatype 'a prog =
    Return bool
  | Do "'a op" "'a prog"
  | Range nat string "nat option \<Rightarrow> 'a prog" "'a prog"
  | Read "'a world \<Rightarrow> 'a prog"

definition isEntity :: "'a world \<Rightarrow> nat option \<Rightarrow> bool" where
  "isEntity w e = (case e of None \<Rightarrow> True | Some a \<Rightarrow> a < w_nents w)"

definition isProp :: "'a world \<Rightarrow> nat option \<Rightarrow> bool" where
  "isProp w p = (case p of None \<Rightarrow> True | Some a \<Rightarrow> a < w_nprops w)"

definition newZeroEntity :: "'a world \<Rightarrow> 'a world" where
  "newZeroEntity w = w\<lparr>w_ents := (w_ents w)(w_nents w := zeroEntity), w_nents := Suc (w_nents w)\<rparr>"

definition newZeroProp :: "'a world \<Rightarrow> 'a world" where
  "newZeroProp w = w\<lparr>w_props := (w_props w)(w_nprops w := zeroProp), w_nprops := Suc (w_nprops w)\<rparr>"

fun do_op :: "(nat \<Rightarrow> nat) \<Rightarrow> 'a op \<Rightarrow> 'a world \<Rightarrow> fault + 'a world" where
  "do_op grow (NewEntity u) w = Inr (snd (Universe_Entity u w))"
| "do_op grow NewZeroEntity w = Inr (newZeroEntity w)"
| "do_op grow NewZeroProp w = Inr (newZeroProp w)"
| "do_op grow (Put e key data) w =
     (if \<not> isEntity w e then Inl InvalidPointer
      else (case Entity_Put grow e key data w of Inl f \<Rightarrow> Inl f | Inr (p, w') \<Rightarrow> Inr w'))"
| "do_op grow (Remove e key) w =
     (if \<not> isEntity w e then Inl InvalidPointer else Inr (snd (Entity_Remove e key w)))"
| "do_op grow (Delete e) w =
     (if \<not> isEntity w e then Inl InvalidPointer else Inr (Entity_Delete e w))"
| "do_op grow (PropRemove p) w =
     (if \<not> isProp w p then Inl InvalidPointer else Inr (Prop_Remove p w))"
| "do_op grow (PropPutData p data) w =
     (if \<not> isProp w p then Inl InvalidPointer else Prop_PutData p data w)"

primrec exec :: "(nat \<Rightarrow> nat) \<Rightarrow> 'a prog \<Rightarrow> 'a world \<Rightarrow> (fault + bool) \<times> 'a world" where
  "exec grow (Return r) = (\<lambda>w. (Inr r, w))"
| "exec grow (Do op k) =
     (\<lambda>w. case do_op grow op w of Inl f \<Rightarrow> (Inl f, w) | Inr w' \<Rightarrow> exec grow k w')"
| "exec grow (Range u key cb k) =
     (\<lambda>w. case propDB_Range u key (\<lambda>p. exec grow (cb p)) w of
             (evs, Some f, w') \<Rightarrow> (Inl f, w')
           | (evs, None, w') \<Rightarrow> exec grow k w')"
| "exec grow (Read f) = (\<lambda>w. exec grow (f w) w)"


section \<open>Predicates on the store\<close>

text \<open>The part of the store that holds the Props and the Entities.\<close>

definition heapOf :: "'a world \<Rightarrow> (nat \<Rightarrow> 'a Prop) \<times> nat \<times> (nat \<Rightarrow> Entity) \<times> nat" where
  "heapOf w = (w_props w, w_nprops w, w_ents w, w_nents w)"

text \<open>The map of an Entity, as a lookup.\<close>

definition tableOf :: "'a world \<Rightarrow> nat \<Rightarrow> string \<Rightarrow> nat option" where
  "tableOf w e key = map_of (e_props (w_ents w e)) key"

text \<open>
  The stores that sequential programs produce.  A Prop in the map of an Entity is
  allocated, carries the key it is stored under, points back to that Entity and is
  attached; an attached Prop is in the map of the Entity it points to; a Prop that
  points to an Entity is attached; a deleted Entity has an empty map; and the keys of a
  map are distinct.
\<close>

definition wellformed :: "'a world \<Rightarrow> bool" where
  "wellformed w \<longleftrightarrow>
     (\<forall>e k p. tableOf w e k = Some p \<longrightarrow>
        e < w_nents w \<and> p < w_nprops w \<and> p_key (w_props w p) = k \<and>
        p_e (w_props w p) = Some e \<and> p_attached (w_props w p))
     \<and> (\<forall>p. p_attached (w_props w p) \<longrightarrow>
           (\<exists>e. p_e (w_props w p) = Some e \<and> tableOf w e (p_key (w_props w p)) = Some p))
     \<and> (\<forall>p e. p_e (w_props w p) = Some e \<longrightarrow> p_attached (w_props w p))
     \<and> (\<forall>e. e_deleted (w_ents w e) \<longrightarrow> e_props (w_ents w e) = [])
     \<and> (\<forall>e. distinct (map fst (e_props (w_ents w e))))"

text \<open>Every call of a program, in its callbacks and on every branch, satisfies \<open>ok\<close>.\<close>

primrec all_ops :: "('a op \<Rightarrow> bool) \<Rightarrow> 'a prog \<Rightarrow> bool" where
  "all_ops ok (Return r) = True"
| "all_ops ok (Do op k) = (ok op \<and> all_ops ok k)"
| "all_ops ok (Range u key cb k) = ((\<forall>q. all_ops ok (cb q)) \<and> all_ops ok k)"
| "all_ops ok (Read f) = (\<forall>w. all_ops ok (f w))"

text \<open>The calls that write the data of a Prop directly: \<open>Put\<close> with key \<open>n\<close> on the
  Entity \<open>e\<close>, and \<open>PutData\<close> on the Prop \<open>p\<close>.\<close>

fun writes_data :: "nat \<Rightarrow> string \<Rightarrow> nat \<Rightarrow> 'a op \<Rightarrow> bool" where
  "writes_data e n p (Put e' key data) = (e' = Some e \<and> key = n)"
| "writes_data e n p (PropPutData q data) = (q = Some p)"
| "writes_data e n p op = False"

text \<open>The Props that the loop passed to the callback, in order, and the number of misses
  it counted.\<close>

fun called :: "'a event list \<Rightarrow> nat option list" where
  "called [] = []"
| "called (Miss p w # evs) = called evs"
| "called (Call p w r w' # evs) = p # called evs"

fun missed :: "'a event list \<Rightarrow> nat" where
  "missed [] = 0"
| "missed (Miss p w # evs) = Suc (missed evs)"
| "missed (Call p w r w' # evs) = missed evs"

text \<open>The store in which the loop met an element.\<close>

fun before :: "'a event \<Rightarrow> 'a world" where
  "before (Miss p w) = w"
| "before (Call p w r w') = w"

text \<open>The Prop of an event, whether the event is a miss, the Props that the loop counted
  as misses, and what the callback returned, in order.\<close>

fun element :: "'a event \<Rightarrow> nat option" where
  "element (Miss p w) = p"
| "element (Call p w r w') = p"

fun isMiss :: "'a event \<Rightarrow> bool" where
  "isMiss (Miss p w) = True"
| "isMiss (Call p w r w') = False"

fun skipped :: "'a event list \<Rightarrow> nat option list" where
  "skipped [] = []"
| "skipped (Miss p w # evs) = p # skipped evs"
| "skipped (Call p w r w' # evs) = skipped evs"

fun answers :: "'a event list \<Rightarrow> (fault + bool) list" where
  "answers [] = []"
| "answers (Miss p w # evs) = answers evs"
| "answers (Call p w r w' # evs) = r # answers evs"

section \<open>Example stores\<close>

text \<open>A growth policy of \<open>append\<close>, a store with one Entity of Universe 0, and that store
  after the Entity is deleted.\<close>

definition exGrow :: "nat \<Rightarrow> nat" where
  "exGrow n = n"

definition exOne :: "nat world" where
  "exOne = snd (Universe_Entity 0 emptyWorld)"

definition exDeleted :: "nat world" where
  "exDeleted = Entity_Delete (Some 0) exOne"

text \<open>
  Three Entities of Universe 0 put the key \<open>k\<close>, and the second removes it again.
  \<open>exThree m\<close> is the store this leaves, with \<open>m\<close> misses counted on the bucket of \<open>k\<close>:
  the bucket holds the Props 0, 1 and 2, of which 1 is removed.
\<close>

definition exSetup :: "nat prog \<Rightarrow> nat prog" where
  "exSetup k =
     Do (NewEntity 0) (Do (Put (Some 0) ''k'' [])
    (Do (NewEntity 0) (Do (Put (Some 1) ''k'' [])
    (Do (NewEntity 0) (Do (Put (Some 2) ''k'' [])
    (Do (Remove (Some 1) ''k'') k))))))"

definition exThree :: "int \<Rightarrow> nat world" where
  "exThree m =
     \<lparr>w_props = (\<lambda>_. zeroProp)
        (0 := \<lparr>p_e = Some 0, p_key = ''k'', p_attached = True, p_data = AnyNil\<rparr>,
         1 := \<lparr>p_e = None, p_key = ''k'', p_attached = False, p_data = AnyNil\<rparr>,
         2 := \<lparr>p_e = Some 2, p_key = ''k'', p_attached = True, p_data = AnyNil\<rparr>),
      w_nprops = 3,
      w_ents = (\<lambda>_. zeroEntity)
        (0 := \<lparr>e_u = Some 0, e_props = [(''k'', 0)], e_deleted = False\<rparr>,
         1 := \<lparr>e_u = Some 0, e_props = [], e_deleted = False\<rparr>,
         2 := \<lparr>e_u = Some 0, e_props = [(''k'', 2)], e_deleted = False\<rparr>),
      w_nents = 3,
      w_univs = (\<lambda>_ _. None)(0 := (\<lambda>_. None)(''k'' := Some 0)),
      w_buckets = (\<lambda>_. zeroBucket)
        (0 := \<lparr>b_data = \<lparr>s_arr = 1, s_off = 0, s_len = 3, s_cap = 3\<rparr>, b_misses = m\<rparr>),
      w_nbuckets = 1,
      w_arrays = (\<lambda>_ _. None)
        (0 := (\<lambda>_. None)(0 := Some 0),
         1 := (\<lambda>_. None)(0 := Some 0, 1 := Some 1, 2 := Some 2)),
      w_narrays = 2\<rparr>"

text \<open>\<open>n\<close> calls of \<open>Range\<close> over \<open>k\<close> whose callback only returns true.\<close>

fun exSweeps :: "nat \<Rightarrow> nat prog \<Rightarrow> nat prog" where
  "exSweeps 0 k = k"
| "exSweeps (Suc n) k = Range 0 ''k'' (\<lambda>_. Return True) (exSweeps n k)"

text \<open>A callback that, on its first call, ranges over \<open>k\<close> itself and then puts \<open>k\<close> on a
  new Entity.\<close>

definition exCallback :: "nat option \<Rightarrow> nat prog" where
  "exCallback p =
     Read (\<lambda>w. if w_nents w = 3
               then Range 0 ''k'' (\<lambda>_. Return True)
                      (Do (NewEntity 0) (Do (Put (Some 3) ''k'' []) (Return True)))
               else Return True)"

text \<open>The store after \<open>Put("k", 1)\<close> on the Entity of \<open>exOne\<close>, and after a second
  \<open>Put("k", 2)\<close> on it.\<close>

definition exPut1 :: "nat world" where
  "exPut1 = snd (exec exGrow (Do (Put (Some 0) ''k'' [AnyVal 1]) (Return True)) exOne)"

definition exPut2 :: "nat world" where
  "exPut2 = snd (exec exGrow (Do (Put (Some 0) ''k'' [AnyVal 2]) (Return True)) exPut1)"

text \<open>
  Two Entities of Universe 0 put the key \<open>k\<close>: \<open>exTwo\<close> is the store this leaves.
  The callback \<open>exRemoveBoth\<close> removes \<open>k\<close> from both and returns true.
\<close>

definition exTwoSetup :: "nat prog" where
  "exTwoSetup =
     Do (NewEntity 0) (Do (Put (Some 0) ''k'' [])
    (Do (NewEntity 0) (Do (Put (Some 1) ''k'' []) (Return True))))"

definition exTwo :: "nat world" where
  "exTwo =
     \<lparr>w_props = (\<lambda>_. zeroProp)
        (0 := \<lparr>p_e = Some 0, p_key = ''k'', p_attached = True, p_data = AnyNil\<rparr>,
         1 := \<lparr>p_e = Some 1, p_key = ''k'', p_attached = True, p_data = AnyNil\<rparr>),
      w_nprops = 2,
      w_ents = (\<lambda>_. zeroEntity)
        (0 := \<lparr>e_u = Some 0, e_props = [(''k'', 0)], e_deleted = False\<rparr>,
         1 := \<lparr>e_u = Some 0, e_props = [(''k'', 1)], e_deleted = False\<rparr>),
      w_nents = 2,
      w_univs = (\<lambda>_ _. None)(0 := (\<lambda>_. None)(''k'' := Some 0)),
      w_buckets = (\<lambda>_. zeroBucket)
        (0 := \<lparr>b_data = \<lparr>s_arr = 1, s_off = 0, s_len = 2, s_cap = 3\<rparr>, b_misses = 0\<rparr>),
      w_nbuckets = 1,
      w_arrays = (\<lambda>_ _. None)
        (0 := (\<lambda>_. None)(0 := Some 0),
         1 := (\<lambda>_. None)(0 := Some 0, 1 := Some 1)),
      w_narrays = 2\<rparr>"

definition exRemoveBoth :: "nat option \<Rightarrow> nat prog" where
  "exRemoveBoth p = Do (Remove (Some 0) ''k'') (Do (Remove (Some 1) ''k'') (Return True))"

text \<open>
  The stores of \<open>TestPropDBCompact\<close>: an Entity puts and removes \<open>k\<close>, a second Entity puts
  \<open>k\<close>.  \<open>exTest m\<close> is the store this leaves, with \<open>m\<close> misses counted.
\<close>

definition exTestSetup :: "nat prog \<Rightarrow> nat prog" where
  "exTestSetup k =
     Do (NewEntity 0) (Do (Put (Some 0) ''k'' []) (Do (Remove (Some 0) ''k'')
    (Do (NewEntity 0) (Do (Put (Some 1) ''k'' []) k))))"

definition exTest :: "int \<Rightarrow> nat world" where
  "exTest m =
     \<lparr>w_props = (\<lambda>_. zeroProp)
        (0 := \<lparr>p_e = None, p_key = ''k'', p_attached = False, p_data = AnyNil\<rparr>,
         1 := \<lparr>p_e = Some 1, p_key = ''k'', p_attached = True, p_data = AnyNil\<rparr>),
      w_nprops = 2,
      w_ents = (\<lambda>_. zeroEntity)
        (0 := \<lparr>e_u = Some 0, e_props = [], e_deleted = False\<rparr>,
         1 := \<lparr>e_u = Some 0, e_props = [(''k'', 1)], e_deleted = False\<rparr>),
      w_nents = 2,
      w_univs = (\<lambda>_ _. None)(0 := (\<lambda>_. None)(''k'' := Some 0)),
      w_buckets = (\<lambda>_. zeroBucket)
        (0 := \<lparr>b_data = \<lparr>s_arr = 1, s_off = 0, s_len = 2, s_cap = 3\<rparr>, b_misses = m\<rparr>),
      w_nbuckets = 1,
      w_arrays = (\<lambda>_ _. None)
        (0 := (\<lambda>_. None)(0 := Some 0),
         1 := (\<lambda>_. None)(0 := Some 0, 1 := Some 1)),
      w_narrays = 2\<rparr>"

text \<open>The callback of \<open>TestPutInRange\<close>: it puts \<open>k\<close> on a new Entity.\<close>

definition exPutNew :: "nat option \<Rightarrow> nat prog" where
  "exPutNew p = Read (\<lambda>w. Do (NewEntity 0) (Do (Put (Some (w_nents w)) ''k'' []) (Return True)))"

section \<open>The index never touches Props and Entities\<close>

lemma heapOf_eqD:
  "heapOf w = heapOf w' \<Longrightarrow>
     w_props w = w_props w' \<and> w_nprops w = w_nprops w' \<and> w_ents w = w_ents w' \<and> w_nents w = w_nents w'"
  by (simp add: heapOf_def)

lemma heapOf_go_append: "heapOf (snd (go_append grow s x w)) = heapOf w"
  by (simp add: go_append_def heapOf_def Let_def)

lemma heapOf_getOrCreateBucket: "heapOf (snd (getOrCreateBucket u key w)) = heapOf w"
  by (simp add: getOrCreateBucket_def heapOf_def Let_def split: option.splits)

lemma heapOf_propDB_append: "heapOf (propDB_append grow u key x w) = heapOf w"
proof -
  obtain b w1 where g: "getOrCreateBucket u key w = (b, w1)" by (cases "getOrCreateBucket u key w")
  obtain s w2 where a: "go_append grow (b_data (w_buckets w1 b)) x w1 = (s, w2)"
    by (cases "go_append grow (b_data (w_buckets w1 b)) x w1")
  have "heapOf w1 = heapOf w" using heapOf_getOrCreateBucket [of u key w] g by simp
  moreover have "heapOf w2 = heapOf w1"
    using heapOf_go_append [of grow "b_data (w_buckets w1 b)" x w1] a by simp
  ultimately show ?thesis
    by (simp add: propDB_append_def g a heapOf_def)
qed

lemma heapOf_addMiss: "heapOf (addMiss b w) = heapOf w"
  by (simp add: addMiss_def heapOf_def)

lemma heapOf_s_set: "heapOf (s_set s i x w) = heapOf w"
  by (simp add: s_set_def heapOf_def)

lemma heapOf_s_clear: "heapOf (s_clear s w) = heapOf w"
  by (simp add: s_clear_def heapOf_def)

lemma heapOf_CompactFunc_move: "heapOf (snd (CompactFunc_move eq s s2 k k2 w)) = heapOf w"
proof (induction eq s s2 k k2 w rule: CompactFunc_move.induct)
  case (1 eq s s2 k k2 w)
  show ?case
    using "1.IH" by (subst CompactFunc_move.simps) (simp add: heapOf_s_set)
qed

lemma heapOf_CompactFunc_scan: "heapOf (snd (CompactFunc_scan eq s k w)) = heapOf w"
proof (induction eq s k w rule: CompactFunc_scan.induct)
  case (1 eq s k w)
  obtain k' w' where m: "CompactFunc_move eq s (s_from s k) k (Suc 0) w = (k', w')"
    by (cases "CompactFunc_move eq s (s_from s k) k (Suc 0) w")
  have "heapOf w' = heapOf w"
    using heapOf_CompactFunc_move [of eq s "s_from s k" k "Suc 0" w] m by simp
  then show ?case
    using "1.IH" by (subst CompactFunc_scan.simps) (simp add: heapOf_s_clear m)
qed

lemma heapOf_CompactFunc: "heapOf (snd (CompactFunc eq s w)) = heapOf w"
  by (simp add: CompactFunc_def heapOf_CompactFunc_scan)

lemma heapOf_tryCompact: "heapOf (tryCompact b w) = heapOf w"
proof (cases "b_misses (w_buckets w b) < bucketMissesBeforeCompact")
  case True
  then show ?thesis by (simp add: tryCompact_def)
next
  case False
  let ?s = "s_from (b_data (w_buckets w b)) (scanBegin w (b_data (w_buckets w b)) 0)"
  obtain s w1 where c: "CompactFunc (\<lambda>w a b. Prop_Removed w b) ?s w = (s, w1)"
    by (cases "CompactFunc (\<lambda>w a b. Prop_Removed w b) ?s w")
  have "heapOf w1 = heapOf w"
    using heapOf_CompactFunc [of "\<lambda>w a b. Prop_Removed w b" ?s w] c by simp
  then show ?thesis
    using False by (simp add: tryCompact_def Let_def c heapOf_def)
qed

section \<open>The loop of rangeProps, and what every program preserves\<close>

lemma rangeProps_loop_done:
  "\<not> i < s_len data \<Longrightarrow> rangeProps_loop fn b data i w = ([], None, w)"
  by (subst rangeProps_loop.simps) simp

lemma rangeProps_loop_miss:
  "i < s_len data \<Longrightarrow> Prop_Removed w (s_at w data i) \<Longrightarrow>
   rangeProps_loop fn b data i w =
     (Miss (s_at w data i) w # fst (rangeProps_loop fn b data (Suc i) (addMiss b w)),
      snd (rangeProps_loop fn b data (Suc i) (addMiss b w)))"
  by (subst rangeProps_loop.simps) (simp add: split_beta)

lemma rangeProps_loop_continue:
  "i < s_len data \<Longrightarrow> \<not> Prop_Removed w (s_at w data i) \<Longrightarrow>
   fn (s_at w data i) w = (Inr True, w') \<Longrightarrow>
   rangeProps_loop fn b data i w =
     (Call (s_at w data i) w (Inr True) w' # fst (rangeProps_loop fn b data (Suc i) w'),
      snd (rangeProps_loop fn b data (Suc i) w'))"
  by (subst rangeProps_loop.simps) (simp add: split_beta)

lemma rangeProps_loop_stop:
  "i < s_len data \<Longrightarrow> \<not> Prop_Removed w (s_at w data i) \<Longrightarrow>
   fn (s_at w data i) w = (Inr False, w') \<Longrightarrow>
   rangeProps_loop fn b data i w = ([Call (s_at w data i) w (Inr False) w'], None, w')"
  by (subst rangeProps_loop.simps) simp

lemma rangeProps_loop_panic:
  "i < s_len data \<Longrightarrow> \<not> Prop_Removed w (s_at w data i) \<Longrightarrow>
   fn (s_at w data i) w = (Inl f, w') \<Longrightarrow>
   rangeProps_loop fn b data i w = ([Call (s_at w data i) w (Inl f) w'], Some f, w')"
  by (subst rangeProps_loop.simps) simp

lemma rangeProps_loop_cases [case_names finished missed continued stopped panicked]:
  assumes "\<not> i < s_len data \<Longrightarrow> R"
    and "i < s_len data \<Longrightarrow> Prop_Removed w (s_at w data i) \<Longrightarrow> R"
    and "\<And>w'. i < s_len data \<Longrightarrow> \<not> Prop_Removed w (s_at w data i) \<Longrightarrow>
           fn (s_at w data i) w = (Inr True, w') \<Longrightarrow> R"
    and "\<And>w'. i < s_len data \<Longrightarrow> \<not> Prop_Removed w (s_at w data i) \<Longrightarrow>
           fn (s_at w data i) w = (Inr False, w') \<Longrightarrow> R"
    and "\<And>f w'. i < s_len data \<Longrightarrow> \<not> Prop_Removed w (s_at w data i) \<Longrightarrow>
           fn (s_at w data i) w = (Inl f, w') \<Longrightarrow> R"
  shows R
proof -
  obtain r w' where f: "fn (s_at w data i) w = (r, w')" by (cases "fn (s_at w data i) w")
  show ?thesis
    using assms f by (cases r) (metis (full_types))+
qed

text \<open>Induction along the loop of \<open>rangeProps\<close>, for a fixed callback, bucket and slice.\<close>

lemma rangeProps_loop_induct [consumes 0, case_names finished missed continued stopped panicked]:
  assumes "\<And>i w. \<not> i < s_len data \<Longrightarrow> Q i w"
    and "\<And>i w. i < s_len data \<Longrightarrow> Prop_Removed w (s_at w data i) \<Longrightarrow>
           Q (Suc i) (addMiss b w) \<Longrightarrow> Q i w"
    and "\<And>i w w'. i < s_len data \<Longrightarrow> \<not> Prop_Removed w (s_at w data i) \<Longrightarrow>
           fn (s_at w data i) w = (Inr True, w') \<Longrightarrow> Q (Suc i) w' \<Longrightarrow> Q i w"
    and "\<And>i w w'. i < s_len data \<Longrightarrow> \<not> Prop_Removed w (s_at w data i) \<Longrightarrow>
           fn (s_at w data i) w = (Inr False, w') \<Longrightarrow> Q i w"
    and "\<And>i w f w'. i < s_len data \<Longrightarrow> \<not> Prop_Removed w (s_at w data i) \<Longrightarrow>
           fn (s_at w data i) w = (Inl f, w') \<Longrightarrow> Q i w"
  shows "Q i w"
proof (induction "s_len data - i" arbitrary: i w)
  case 0
  then show ?case using assms(1) by simp
next
  case (Suc n i w)
  then have len: "i < s_len data" and n: "n = s_len data - Suc i" by simp_all
  show ?case
  proof (cases rule: rangeProps_loop_cases [where i = i and data = data and w = w and fn = fn])
    case finished
    then show ?thesis using len by simp
  next
    case missed
    then show ?thesis using assms(2) Suc.hyps(1) [OF n] by blast
  next
    case (continued w')
    then show ?thesis using assms(3) Suc.hyps(1) [OF n] by blast
  next
    case (stopped w')
    then show ?thesis using assms(4) by blast
  next
    case (panicked f w')
    then show ?thesis using assms(5) by blast
  qed
qed

lemma rangeProps_loop_preserves:
  assumes fn: "\<And>p w. P w \<Longrightarrow> P (snd (fn p w))"
    and miss: "\<And>w. P w \<Longrightarrow> P (addMiss b w)"
  shows "P w \<Longrightarrow> P (snd (snd (rangeProps_loop fn b data i w)))"
proof (induction i w rule: rangeProps_loop_induct [where data = data and b = b and fn = fn])
  case (finished i w)
  then show ?case by (simp add: rangeProps_loop_done)
next
  case (missed i w)
  then show ?case using assms(2) by (simp add: rangeProps_loop_miss)
next
  case (continued i w w')
  then show ?case using fn [of w "s_at w data i"] by (simp add: rangeProps_loop_continue)
next
  case (stopped i w w')
  then show ?case using fn [of w "s_at w data i"] by (simp add: rangeProps_loop_stop)
next
  case (panicked i w f w')
  then show ?case using fn [of w "s_at w data i"] by (simp add: rangeProps_loop_panic)
qed

lemma propDB_Range_preserves:
  assumes frame: "\<And>w w'. heapOf w = heapOf w' \<Longrightarrow> P w \<Longrightarrow> P w'"
    and fn: "\<And>p w. P w \<Longrightarrow> P (snd (fn p w))"
    and P: "P w"
  shows "P (snd (snd (propDB_Range u key fn w)))"
proof (cases "w_univs w u key")
  case None
  then show ?thesis using P by (simp add: propDB_Range_def)
next
  case (Some b)
  have miss: "\<And>w. P w \<Longrightarrow> P (addMiss b w)"
    using frame heapOf_addMiss by metis
  obtain evs r w1 where l: "rangeProps fn b w = (evs, r, w1)" by (cases "rangeProps fn b w") auto
  have "P (snd (snd (rangeProps fn b w)))"
    unfolding rangeProps_def using fn miss P by (rule rangeProps_loop_preserves)
  then have w1: "P w1" using l by simp
  then have "P (tryCompact b w1)" using frame heapOf_tryCompact by metis
  then show ?thesis using Some l w1 by (cases r) (simp_all add: propDB_Range_def)
qed

lemma exec_preserves:
  assumes frame: "\<And>w w'. heapOf w = heapOf w' \<Longrightarrow> P w \<Longrightarrow> P w'"
    and ops: "\<And>op w w'. P w \<Longrightarrow> do_op grow op w = Inr w' \<Longrightarrow> P w'"
  shows "P w \<Longrightarrow> P (snd (exec grow prog w))"
proof (induction prog arbitrary: w)
  case (Return r)
  then show ?case by simp
next
  case (Do op k)
  then show ?case using ops by (cases "do_op grow op w") auto
next
  case (Range u key cb k)
  have fn: "\<And>p w. P w \<Longrightarrow> P (snd (exec grow (cb p) w))"
    using Range.IH(1) by blast
  obtain evs r w1 where l: "propDB_Range u key (\<lambda>p. exec grow (cb p)) w = (evs, r, w1)"
    by (cases "propDB_Range u key (\<lambda>p. exec grow (cb p)) w") auto
  have "P (snd (snd (propDB_Range u key (\<lambda>p. exec grow (cb p)) w)))"
    using frame fn Range.prems by (rule propDB_Range_preserves)
  then have "P w1" using l by simp
  then show ?case using l Range.IH(2) by (cases r) simp_all
next
  case (Read f)
  then show ?case by simp
qed

section \<open>What Put returns\<close>

lemma loadProp_heapOf: "heapOf w = heapOf w' \<Longrightarrow> loadProp w e key = loadProp w' e key"
  by (auto simp: heapOf_def loadProp_def Prop_Removed_def split: option.splits)

lemma heapOf_props: "heapOf w = heapOf w' \<Longrightarrow> w_props w = w_props w'"
  and heapOf_ents: "heapOf w = heapOf w' \<Longrightarrow> w_ents w = w_ents w'"
  and heapOf_nprops: "heapOf w = heapOf w' \<Longrightarrow> w_nprops w = w_nprops w'"
  and heapOf_nents: "heapOf w = heapOf w' \<Longrightarrow> w_nents w = w_nents w'"
  by (simp_all add: heapOf_def)

text \<open>The tail of \<open>Put\<close>, on the Props and Entities.\<close>

lemma heapOf_Put_store:
  "heapOf (snd (Put_store grow a key newProp data w)) =
   heapOf (putData newProp data (storeProp a key newProp w))"
proof (cases "e_u (w_ents (storeProp a key newProp w) a)")
  case None
  then show ?thesis by (simp add: Put_store_def Let_def)
next
  case (Some u)
  have "heapOf (propDB_append grow u key (Some newProp) (storeProp a key newProp w)) =
        heapOf (storeProp a key newProp w)"
    by (rule heapOf_propDB_append)
  then show ?thesis
    using Some by (simp add: Put_store_def Let_def heapOf_def putData_def)
qed

lemma fst_Put_store: "fst (Put_store grow a key newProp data w) = Some newProp"
  by (simp add: Put_store_def Let_def)

lemma loadProp_putData: "loadProp (putData p data w) e key = loadProp w e key"
  by (auto simp: loadProp_def putData_def Prop_Removed_def split: option.splits)

lemma loadProp_Put_store:
  assumes "\<not> e_deleted (w_ents w a)" "p_attached (w_props w newProp)"
  shows "loadProp (snd (Put_store grow a key newProp data w)) (Some a) key = Some newProp"
proof -
  have "loadProp (snd (Put_store grow a key newProp data w)) (Some a) key =
        loadProp (putData newProp data (storeProp a key newProp w)) (Some a) key"
    by (rule loadProp_heapOf) (rule heapOf_Put_store)
  also have "\<dots> = Some newProp"
    using assms by (simp add: loadProp_putData) (simp add: loadProp_def storeProp_def update_conv' Prop_Removed_def)
  finally show ?thesis .
qed

text \<open>What \<open>Put\<close> returns on an Entity that is not deleted: the Prop is in the map under
  the key and is live.\<close>

lemma Entity_Put_live:
  assumes "\<not> e_deleted (w_ents w a)"
  shows "\<exists>p w1. Entity_Put grow (Some a) key data w = Inr (Some p, w1) \<and>
                 loadProp w1 (Some a) key = Some p"
proof (cases "loadProp w (Some a) key")
  case (Some p)
  then show ?thesis using assms by (simp add: Entity_Put_def loadProp_putData)
next
  case None
  let ?n = "w_nprops w"
  let ?w1 = "w\<lparr>w_props := (w_props w)(?n := zeroProp\<lparr>p_key := key\<rparr>), w_nprops := Suc ?n\<rparr>"
  let ?w2 = "attach ?n (Some a) ?w1"
  have del: "\<not> e_deleted (w_ents ?w2 a)" using assms by (simp add: attach_def)
  have att: "p_attached (w_props ?w2 ?n)" by (simp add: attach_def)
  have store: "loadProp (snd (Put_store grow a key ?n data ?w2)) (Some a) key = Some ?n"
    using del att by (rule loadProp_Put_store)
  obtain r w' where ps: "Put_store grow a key ?n data ?w2 = (r, w')"
    by (cases "Put_store grow a key ?n data ?w2")
  have r: "r = Some ?n" using fst_Put_store [of grow a key ?n data ?w2] ps by simp
  have w': "loadProp w' (Some a) key = Some ?n" using store ps by simp
  show ?thesis
  proof (cases "map_of (e_props (w_ents ?w2 a)) key")
    case nokey: None
    then show ?thesis
      using assms None ps r w' by (simp add: Entity_Put_def Let_def)
  next
    case (Some x)
    show ?thesis
    proof (cases "Prop_Removed ?w2 (Some x)")
      case True
      then show ?thesis
        using assms None Some ps r w' by (simp add: Entity_Put_def Let_def)
    next
      case False
      have "loadProp (putData x data ?w2) (Some a) key = Some x"
        using False Some del by (simp add: loadProp_putData) (simp add: loadProp_def)
      then show ?thesis
        using assms None Some False by (simp add: Entity_Put_def Let_def)
    qed
  qed
qed

section \<open>The claims on single calls\<close>

text \<open>
  Claim C9.  On a nil Prop, \<open>Data\<close> returns nil, \<open>Entity\<close> returns nil and \<open>Removed\<close>
  returns true, while \<open>Key\<close> panics (a nil dereference).  On a Prop that is not nil,
  \<open>Key\<close> returns the key and \<open>Removed\<close> is true exactly when the Prop is not attached:
  it is true after \<open>detatch\<close> and false after \<open>attach\<close>.
\<close>

theorem Prop_accessors_nil_safe:
  "Prop_Data w None = AnyNil \<and> Prop_Entity w None = None \<and> Prop_Removed w None
   \<and> Prop_Key w None = Inl NilDereference
   \<and> Prop_Key w (Some p) = Inr (p_key (w_props w p))
   \<and> Prop_Removed w (Some p) = (\<not> p_attached (w_props w p))
   \<and> Prop_Removed (detatch p w) (Some p)
   \<and> \<not> Prop_Removed (attach p e w) (Some p)"
  by (simp add: Prop_Data_def Prop_Entity_def Prop_Removed_def Prop_Key_def detatch_def attach_def)

text \<open>
  Claim C7.  \<open>Put\<close> on a nil Entity panics, for every key and data.  On an Entity that is
  deleted, \<open>Put\<close> and \<open>Remove\<close> return nil and leave the whole store as it was.  On an
  Entity that is not deleted, \<open>Put\<close> returns a Prop that is not nil.
\<close>

theorem Put_Remove_nil_and_deleted:
  "Entity_Put grow None key data w = Inl PutOnNilEntity
   \<and> (e_deleted (w_ents w a) \<longrightarrow>
        Entity_Put grow (Some a) key data w = Inr (None, w) \<and> Entity_Remove (Some a) key w = (None, w))
   \<and> (\<not> e_deleted (w_ents w a) \<longrightarrow>
        (\<exists>p w'. Entity_Put grow (Some a) key data w = Inr (Some p, w')))"
  using Entity_Put_live [of w a grow key data]
  by (auto simp: Entity_Put_def Entity_Remove_def)

theorem Put_Remove_nil_and_deleted_witness:
  "e_deleted (w_ents exDeleted 0)
   \<and> Entity_Put exGrow (Some 0) ''k'' [] exDeleted = Inr (None, exDeleted)
   \<and> Entity_Remove (Some 0) ''k'' exDeleted = (None, exDeleted)
   \<and> \<not> e_deleted (w_ents exOne 0)
   \<and> (\<exists>p w'. Entity_Put exGrow (Some 0) ''k'' [] exOne = Inr (Some p, w'))"
proof -
  have d: "e_deleted (w_ents exDeleted 0)"
    by (simp add: exDeleted_def exOne_def Entity_Delete_def Universe_Entity_def Let_def emptyWorld_def
        zeroEntity_def)
  have n: "\<not> e_deleted (w_ents exOne 0)"
    by (simp add: exOne_def Universe_Entity_def Let_def emptyWorld_def zeroEntity_def)
  show ?thesis
    using d n Put_Remove_nil_and_deleted [of exGrow "''k''" "[]" exDeleted 0]
      Put_Remove_nil_and_deleted [of exGrow "''k''" "[]" exOne 0]
    by simp
qed



section \<open>Compaction, and appends during a Range\<close>

lemmas ex_defs =
  emptyWorld_def Universe_Entity_def Entity_Put_def Entity_Remove_def
  loadProp_def attach_def detatch_def removeKey_def storeProp_def Put_store_def propDB_append_def
  getOrCreateBucket_def go_append_def putData_def packData_def isEntity_def Let_def zeroEntity_def
  zeroProp_def zeroBucket_def nilSlice_def exGrow_def Prop_Removed_def s_at_def

lemma exSetup_world: "snd (exec exGrow (exSetup (Return True)) emptyWorld) = exThree 0"
  by (simp add: exSetup_def exThree_def ex_defs fun_eq_iff)

lemma exSetup_exThree: "exec exGrow (exSetup k) emptyWorld = exec exGrow k (exThree 0)"
proof -
  have "exec exGrow (exSetup k) emptyWorld =
        exec exGrow k (snd (exec exGrow (exSetup (Return True)) emptyWorld))"
    by (simp add: exSetup_def ex_defs)
  then show ?thesis by (simp only: exSetup_world)
qed

lemma exThree_sweep:
  assumes "m + 1 < 500"
  shows "propDB_Range 0 ''k'' (\<lambda>p w. (Inr True, w)) (exThree m) =
         ([Call (Some 0) (exThree m) (Inr True) (exThree m), Miss (Some 1) (exThree m),
           Call (Some 2) (exThree (m + 1)) (Inr True) (exThree (m + 1))], None, exThree (m + 1))"
proof -
  let ?fn = "\<lambda>(p::nat option) (w::nat world). (Inr True :: fault + bool, w)"
  let ?d = "\<lparr>s_arr = 1, s_off = 0, s_len = 3, s_cap = 3\<rparr>"
  have am: "addMiss 0 (exThree m) = exThree (m + 1)"
    by (simp add: addMiss_def exThree_def)
  have 3: "rangeProps_loop ?fn 0 ?d 3 (exThree (m + 1)) = ([], None, exThree (m + 1))"
    by (simp add: rangeProps_loop_done)
  have 2: "rangeProps_loop ?fn 0 ?d 2 (exThree (m + 1)) =
        ([Call (Some 2) (exThree (m + 1)) (Inr True) (exThree (m + 1))], None, exThree (m + 1))"
    using 3
    by (subst rangeProps_loop_continue [where w' = "exThree (m + 1)"])
       (simp_all add: exThree_def s_at_def Prop_Removed_def numeral_3_eq_3 numeral_2_eq_2)
  have 1: "rangeProps_loop ?fn 0 ?d 1 (exThree m) =
        ([Miss (Some 1) (exThree m),
          Call (Some 2) (exThree (m + 1)) (Inr True) (exThree (m + 1))], None, exThree (m + 1))"
    using 2 am
    by (subst rangeProps_loop_miss)
       (simp_all add: exThree_def s_at_def Prop_Removed_def numeral_2_eq_2)
  have 0: "rangeProps_loop ?fn 0 ?d 0 (exThree m) =
        ([Call (Some 0) (exThree m) (Inr True) (exThree m), Miss (Some 1) (exThree m),
          Call (Some 2) (exThree (m + 1)) (Inr True) (exThree (m + 1))], None, exThree (m + 1))"
    using 1
    by (subst rangeProps_loop_continue [where w' = "exThree m"])
       (simp_all add: exThree_def s_at_def Prop_Removed_def)
  have d: "b_data (w_buckets (exThree m) 0) = ?d" by (simp add: exThree_def)
  have tc: "tryCompact 0 (exThree (m + 1)) = exThree (m + 1)"
    using assms by (simp add: tryCompact_def exThree_def bucketMissesBeforeCompact_def)
  have u: "w_univs (exThree m) 0 ''k'' = Some 0" by (simp add: exThree_def)
  show ?thesis
    using 0 tc by (simp add: propDB_Range_def u rangeProps_def d)
qed

lemma exSweeps_exThree:
  "int n + m < 500 \<Longrightarrow> exec exGrow (exSweeps n k) (exThree m) = exec exGrow k (exThree (m + int n))"
proof (induction n arbitrary: m)
  case 0
  then show ?case by simp
next
  case (Suc n)
  have "m + 1 < 500" using Suc.prems by simp
  then have "exec exGrow (exSweeps (Suc n) k) (exThree m) = exec exGrow (exSweeps n k) (exThree (m + 1))"
    by (simp add: exThree_sweep)
  also have "\<dots> = exec exGrow k (exThree (m + 1 + int n))"
    using Suc.prems by (intro Suc.IH) simp
  finally show ?case by (simp add: add.commute add.left_commute)
qed

text \<open>The store \<open>exThree 499\<close> is the one the package is in after the three Puts, the Remove
  and 499 calls of \<open>Range\<close>.\<close>

lemma exThree_reachable:
  "exec exGrow (exSetup (exSweeps 499 k)) emptyWorld = exec exGrow k (exThree 499)"
  using exSweeps_exThree [of 499 0 k] by (simp add: exSetup_exThree)

text \<open>The package's own test of compaction, in the model: the bucket holds the removed
  Prop and the live one; after 500 calls of \<open>Range\<close> it holds the live one only.\<close>

lemma exTestSetup_world: "snd (exec exGrow (exTestSetup (Return True)) emptyWorld) = exTest 0"
  by (simp add: exTestSetup_def exTest_def ex_defs fun_eq_iff)

lemma exTestSetup_exTest: "exec exGrow (exTestSetup k) emptyWorld = exec exGrow k (exTest 0)"
proof -
  have "exec exGrow (exTestSetup k) emptyWorld =
        exec exGrow k (snd (exec exGrow (exTestSetup (Return True)) emptyWorld))"
    by (simp add: exTestSetup_def ex_defs)
  then show ?thesis by (simp only: exTestSetup_world)
qed

lemma exTest_sweep:
  assumes "m + 1 < 500"
  shows "propDB_Range 0 ''k'' (\<lambda>p w. (Inr True, w)) (exTest m) =
         ([Miss (Some 0) (exTest m), Call (Some 1) (exTest (m + 1)) (Inr True) (exTest (m + 1))],
          None, exTest (m + 1))"
proof -
  let ?fn = "\<lambda>(p::nat option) (w::nat world). (Inr True :: fault + bool, w)"
  let ?d = "\<lparr>s_arr = 1, s_off = 0, s_len = 2, s_cap = 3\<rparr>"
  have am: "addMiss 0 (exTest m) = exTest (m + 1)"
    by (simp add: addMiss_def exTest_def)
  have 2: "rangeProps_loop ?fn 0 ?d 2 (exTest (m + 1)) = ([], None, exTest (m + 1))"
    by (simp add: rangeProps_loop_done)
  have 1: "rangeProps_loop ?fn 0 ?d 1 (exTest (m + 1)) =
        ([Call (Some 1) (exTest (m + 1)) (Inr True) (exTest (m + 1))], None, exTest (m + 1))"
    using 2
    by (subst rangeProps_loop_continue [where w' = "exTest (m + 1)"])
       (simp_all add: exTest_def s_at_def Prop_Removed_def numeral_2_eq_2)
  have 0: "rangeProps_loop ?fn 0 ?d 0 (exTest m) =
        ([Miss (Some 0) (exTest m), Call (Some 1) (exTest (m + 1)) (Inr True) (exTest (m + 1))],
         None, exTest (m + 1))"
    using 1 am
    by (subst rangeProps_loop_miss) (simp_all add: exTest_def s_at_def Prop_Removed_def)
  have d: "b_data (w_buckets (exTest m) 0) = ?d" by (simp add: exTest_def)
  have tc: "tryCompact 0 (exTest (m + 1)) = exTest (m + 1)"
    using assms by (simp add: tryCompact_def exTest_def bucketMissesBeforeCompact_def)
  have u: "w_univs (exTest m) 0 ''k'' = Some 0" by (simp add: exTest_def)
  show ?thesis
    using 0 tc by (simp add: propDB_Range_def u rangeProps_def d)
qed

lemma exSweeps_exTest:
  "int n + m < 500 \<Longrightarrow> exec exGrow (exSweeps n k) (exTest m) = exec exGrow k (exTest (m + int n))"
proof (induction n arbitrary: m)
  case 0
  then show ?case by simp
next
  case (Suc n)
  have "m + 1 < 500" using Suc.prems by simp
  then have "exec exGrow (exSweeps (Suc n) k) (exTest m) = exec exGrow (exSweeps n k) (exTest (m + 1))"
    by (simp add: exTest_sweep)
  also have "\<dots> = exec exGrow k (exTest (m + 1 + int n))"
    using Suc.prems by (intro Suc.IH) simp
  finally show ?case by (simp add: add.commute add.left_commute)
qed

lemma exSweeps_add: "exSweeps (n + m) k = exSweeps n (exSweeps m k)"
  by (induction n) simp_all

lemma exTest_last_sweep:
  "s_elems (exTest 499) (b_data (w_buckets (exTest 499) 0)) = [Some 0, Some 1]
   \<and> s_elems (snd (exec exGrow (exSweeps 1 (Return True)) (exTest 499)))
        (b_data (w_buckets (snd (exec exGrow (exSweeps 1 (Return True)) (exTest 499))) 0)) = [Some 1]"
  by code_simp

lemma TestPropDBCompact:
  "s_elems (snd (exec exGrow (exTestSetup (Return True)) emptyWorld))
     (b_data (w_buckets (snd (exec exGrow (exTestSetup (Return True)) emptyWorld)) 0)) = [Some 0, Some 1]
   \<and> s_elems (snd (exec exGrow (exTestSetup (exSweeps 500 (Return True))) emptyWorld))
        (b_data (w_buckets (snd (exec exGrow (exTestSetup (exSweeps 500 (Return True))) emptyWorld)) 0)) =
       [Some 1]"
proof -
  have a: "exec exGrow (exTestSetup (exSweeps 500 (Return True))) emptyWorld =
        exec exGrow (exSweeps 1 (Return True)) (exTest 499)"
    using exSweeps_exTest [of 499 0 "exSweeps 1 (Return True)"] exSweeps_add [of 499 1 "Return True"]
    by (simp add: exTestSetup_exTest del: exSweeps.simps)
  have b: "s_elems (exTest 0) (b_data (w_buckets (exTest 0) 0)) = [Some 0, Some 1]" by code_simp
  show ?thesis
    using exTest_last_sweep b by (simp only: a exTestSetup_world)
qed

text \<open>What \<open>tryCompact\<close> does hold to: it only runs from 500 misses on, it resets
  the counter, and it never touches a Prop.\<close>

lemma tryCompact_below:
  "b_misses (w_buckets w b) < 500 \<Longrightarrow> tryCompact b w = w"
  by (simp add: tryCompact_def bucketMissesBeforeCompact_def)

lemma tryCompact_resets:
  "\<not> b_misses (w_buckets w b) < 500 \<Longrightarrow> b_misses (w_buckets (tryCompact b w) b) = 0"
  by (simp add: tryCompact_def bucketMissesBeforeCompact_def Let_def split: prod.splits)

lemma tryCompact_props: "w_props (tryCompact b w) = w_props w"
  using heapOf_tryCompact [of b w] by (simp add: heapOf_def)

text \<open>
  Claim C1, at a run where it fails.  Three Entities put \<open>k\<close>, the second removes it, and
  \<open>Range\<close> over \<open>k\<close> is called 499 times: the bucket of \<open>k\<close> holds the Props 0, 1, 2, of
  which only 1 is removed, and has counted 499 misses.  The 500th \<open>Range\<close> counts the
  500th miss and compacts.  By the claim the bucket then holds the live Props 0 and 2.
  It holds 0 and 1: the removed Prop 1 stays, and the live Prop 2 (the element after a
  removed one) is dropped, because \<open>CompactFunc\<close> passes the current element first and the
  closure of \<open>tryCompact\<close> tests its second argument.
\<close>

theorem tryCompact_drops_live_Prop:
  "s_elems (snd (exec exGrow (exSetup (exSweeps 499 (Return True))) emptyWorld))
     (b_data (w_buckets (snd (exec exGrow (exSetup (exSweeps 499 (Return True))) emptyWorld)) 0)) =
     [Some 0, Some 1, Some 2]
   \<and> map (Prop_Removed (snd (exec exGrow (exSetup (exSweeps 499 (Return True))) emptyWorld)))
       [Some 0, Some 1, Some 2] = [False, True, False]
   \<and> b_misses (w_buckets (snd (exec exGrow (exSetup (exSweeps 499 (Return True))) emptyWorld)) 0) = 499
   \<and> s_elems (snd (exec exGrow (exSetup (exSweeps 500 (Return True))) emptyWorld))
       (b_data (w_buckets (snd (exec exGrow (exSetup (exSweeps 500 (Return True))) emptyWorld)) 0)) =
       [Some 0, Some 1]
   \<and> map (Prop_Removed (snd (exec exGrow (exSetup (exSweeps 500 (Return True))) emptyWorld)))
       [Some 0, Some 1, Some 2] = [False, True, False]
   \<and> b_misses (w_buckets (snd (exec exGrow (exSetup (exSweeps 500 (Return True))) emptyWorld)) 0) = 0"
proof -
  have a: "snd (exec exGrow (exSetup (exSweeps 499 (Return True))) emptyWorld) = exThree 499"
    by (simp add: exThree_reachable)
  have b: "exec exGrow (exSetup (exSweeps 500 (Return True))) emptyWorld =
        exec exGrow (exSweeps 1 (Return True)) (exThree 499)"
    using exThree_reachable [of "exSweeps 1 (Return True)"] exSweeps_add [of 499 1 "Return True"]
    by (simp del: exSweeps.simps)
  have c: "s_elems (exThree 499) (b_data (w_buckets (exThree 499) 0)) = [Some 0, Some 1, Some 2]
     \<and> map (Prop_Removed (exThree 499)) [Some 0, Some 1, Some 2] = [False, True, False]
     \<and> b_misses (w_buckets (exThree 499) 0) = 499
     \<and> s_elems (snd (exec exGrow (exSweeps 1 (Return True)) (exThree 499)))
         (b_data (w_buckets (snd (exec exGrow (exSweeps 1 (Return True)) (exThree 499))) 0)) =
         [Some 0, Some 1]
     \<and> map (Prop_Removed (snd (exec exGrow (exSweeps 1 (Return True)) (exThree 499))))
         [Some 0, Some 1, Some 2] = [False, True, False]
     \<and> b_misses (w_buckets (snd (exec exGrow (exSweeps 1 (Return True)) (exThree 499))) 0) = 0"
    by code_simp
  show ?thesis
    using c by (simp only: a b)
qed

text \<open>The package's \<open>TestPutInRange\<close>, in the model: with one Entity that has \<open>k\<close>, a
  \<open>Range\<close> whose callback puts \<open>k\<close> on a new Entity calls it once, and the next \<open>Range\<close>
  reaches both Props.  No compaction happens here.\<close>

lemma TestPutInRange:
  "called (fst (propDB_Range 0 ''k'' (\<lambda>p. exec exGrow (exPutNew p)) exPut1)) = [Some 0]
   \<and> called (fst (propDB_Range 0 ''k'' (\<lambda>p w. (Inr True, w))
         (snd (snd (propDB_Range 0 ''k'' (\<lambda>p. exec exGrow (exPutNew p)) exPut1))))) = [Some 0, Some 1]"
  by code_simp

text \<open>
  Claim C3, at a run where it fails.  After the same three Puts, the Remove and 499
  calls of \<open>Range\<close>, a \<open>Range\<close> over \<open>k\<close> runs a callback that, on its first call, ranges
  over \<open>k\<close> (which compacts the bucket in place, in the array the outer loop is
  reading) and then puts \<open>k\<close> on a new Entity (which appends Prop 3 in place, into the
  slot the compaction freed).  The outer loop then passes Prop 3, which did not exist
  when the loop began, to the callback.
\<close>

theorem Range_visits_Prop_of_own_callback:
  "w_nprops (snd (exec exGrow (exSetup (exSweeps 499 (Return True))) emptyWorld)) = 3
   \<and> s_elems (snd (exec exGrow (exSetup (exSweeps 499 (Return True))) emptyWorld))
       (b_data (w_buckets (snd (exec exGrow (exSetup (exSweeps 499 (Return True))) emptyWorld)) 0)) =
       [Some 0, Some 1, Some 2]
   \<and> called (fst (propDB_Range 0 ''k'' (\<lambda>p. exec exGrow (exCallback p))
               (snd (exec exGrow (exSetup (exSweeps 499 (Return True))) emptyWorld)))) =
       [Some 0, Some 3]
   \<and> fst (snd (propDB_Range 0 ''k'' (\<lambda>p. exec exGrow (exCallback p))
               (snd (exec exGrow (exSetup (exSweeps 499 (Return True))) emptyWorld)))) = None"
proof -
  have a: "snd (exec exGrow (exSetup (exSweeps 499 (Return True))) emptyWorld) = exThree 499"
    by (simp add: exThree_reachable)
  have c: "w_nprops (exThree 499) = 3
     \<and> s_elems (exThree 499) (b_data (w_buckets (exThree 499) 0)) = [Some 0, Some 1, Some 2]
     \<and> called (fst (propDB_Range 0 ''k'' (\<lambda>p. exec exGrow (exCallback p)) (exThree 499))) =
         [Some 0, Some 3]
     \<and> fst (snd (propDB_Range 0 ''k'' (\<lambda>p. exec exGrow (exCallback p)) (exThree 499))) = None"
    by code_simp
  show ?thesis
    using c by (simp only: a)
qed

section \<open>Every program keeps the store well-formed\<close>

lemma wellformedI:
  assumes "\<And>e k p. tableOf w e k = Some p \<Longrightarrow>
        e < w_nents w \<and> p < w_nprops w \<and> p_key (w_props w p) = k \<and>
        p_e (w_props w p) = Some e \<and> p_attached (w_props w p)"
    and "\<And>p. p_attached (w_props w p) \<Longrightarrow>
           \<exists>e. p_e (w_props w p) = Some e \<and> tableOf w e (p_key (w_props w p)) = Some p"
    and "\<And>p e. p_e (w_props w p) = Some e \<Longrightarrow> p_attached (w_props w p)"
    and "\<And>e. e_deleted (w_ents w e) \<Longrightarrow> e_props (w_ents w e) = []"
    and "\<And>e. distinct (map fst (e_props (w_ents w e)))"
  shows "wellformed w"
  using assms unfolding wellformed_def by blast

lemma wellformed_table:
  "wellformed w \<Longrightarrow> tableOf w e k = Some p \<Longrightarrow>
     e < w_nents w \<and> p < w_nprops w \<and> p_key (w_props w p) = k \<and>
     p_e (w_props w p) = Some e \<and> p_attached (w_props w p)"
  unfolding wellformed_def by blast

lemma wellformed_attached:
  "wellformed w \<Longrightarrow> p_attached (w_props w p) \<Longrightarrow>
     \<exists>e. p_e (w_props w p) = Some e \<and> tableOf w e (p_key (w_props w p)) = Some p"
  unfolding wellformed_def by blast

lemma wellformed_owner: "wellformed w \<Longrightarrow> p_e (w_props w p) = Some e \<Longrightarrow> p_attached (w_props w p)"
  unfolding wellformed_def by blast

lemma wellformed_deleted: "wellformed w \<Longrightarrow> e_deleted (w_ents w e) \<Longrightarrow> e_props (w_ents w e) = []"
  unfolding wellformed_def by blast

lemma wellformed_distinct: "wellformed w \<Longrightarrow> distinct (map fst (e_props (w_ents w e)))"
  unfolding wellformed_def by blast

lemma tableOf_heapOf: "heapOf w = heapOf w' \<Longrightarrow> tableOf w = tableOf w'"
  by (simp add: heapOf_def tableOf_def fun_eq_iff)

lemma wellformed_heapOf: "heapOf w = heapOf w' \<Longrightarrow> wellformed w \<Longrightarrow> wellformed w'"
  using tableOf_heapOf [of w w'] by (simp add: heapOf_def wellformed_def)

lemma wellformed_emptyWorld: "wellformed emptyWorld"
  by (simp add: wellformed_def tableOf_def emptyWorld_def zeroEntity_def zeroProp_def)

lemma tableOf_putData: "tableOf (putData p d w) = tableOf w"
  by (simp add: putData_def tableOf_def fun_eq_iff)

lemma wellformed_putData: "wellformed w \<Longrightarrow> wellformed (putData p d w)"
  unfolding wellformed_def tableOf_putData by (simp add: putData_def)

lemma wellformed_newZeroProp: "wellformed w \<Longrightarrow> wellformed (newZeroProp w)"
proof (rule wellformedI)
  assume w: "wellformed w"
  let ?w = "newZeroProp w"
  have t: "tableOf ?w = tableOf w" by (simp add: tableOf_def newZeroProp_def fun_eq_iff)
  have n: "\<And>p. p \<noteq> w_nprops w \<Longrightarrow> w_props ?w p = w_props w p" by (simp add: newZeroProp_def)
  have z: "w_props ?w (w_nprops w) = zeroProp" by (simp add: newZeroProp_def)
  { fix e k p assume "tableOf ?w e k = Some p"
    then have o: "tableOf w e k = Some p" using t by simp
    then have "p \<noteq> w_nprops w" using wellformed_table [OF w o] by simp
    then show "e < w_nents ?w \<and> p < w_nprops ?w \<and> p_key (w_props ?w p) = k \<and>
        p_e (w_props ?w p) = Some e \<and> p_attached (w_props ?w p)"
      using wellformed_table [OF w o] n by (simp add: newZeroProp_def) }
  { fix p assume a: "p_attached (w_props ?w p)"
    then have "p \<noteq> w_nprops w" using z by (auto simp: zeroProp_def)
    then show "\<exists>e. p_e (w_props ?w p) = Some e \<and> tableOf ?w e (p_key (w_props ?w p)) = Some p"
      using a n t wellformed_attached [OF w, of p] by simp }
  { fix p e assume a: "p_e (w_props ?w p) = Some e"
    then have "p \<noteq> w_nprops w" using z by (auto simp: zeroProp_def)
    then show "p_attached (w_props ?w p)" using a n wellformed_owner [OF w, of p e] by simp }
  { fix e assume "e_deleted (w_ents ?w e)"
    then show "e_props (w_ents ?w e) = []" using wellformed_deleted [OF w, of e] by (simp add: newZeroProp_def) }
  { fix e show "distinct (map fst (e_props (w_ents ?w e)))"
      using wellformed_distinct [OF w, of e] by (simp add: newZeroProp_def) }
qed

lemma wellformed_newEntity:
  assumes w: "wellformed w" and ent: "e_props ent = []"
  shows "wellformed (w\<lparr>w_ents := (w_ents w)(w_nents w := ent), w_nents := Suc (w_nents w)\<rparr>)"
proof (rule wellformedI)
  let ?w = "w\<lparr>w_ents := (w_ents w)(w_nents w := ent), w_nents := Suc (w_nents w)\<rparr>"
  have t: "\<And>e k. tableOf ?w e k = (if e = w_nents w then None else tableOf w e k)"
    using ent by (simp add: tableOf_def)
  have told: "\<And>e k p. tableOf w e k = Some p \<Longrightarrow> e \<noteq> w_nents w"
    using wellformed_table [OF w] by fastforce
  { fix e k p assume "tableOf ?w e k = Some p"
    then have o: "tableOf w e k = Some p" using t by (simp split: if_splits)
    show "e < w_nents ?w \<and> p < w_nprops ?w \<and> p_key (w_props ?w p) = k \<and>
        p_e (w_props ?w p) = Some e \<and> p_attached (w_props ?w p)"
      using wellformed_table [OF w o] by simp }
  { fix p assume a: "p_attached (w_props ?w p)"
    then obtain e where e: "p_e (w_props w p) = Some e" "tableOf w e (p_key (w_props w p)) = Some p"
      using wellformed_attached [OF w, of p] by auto
    then have "e \<noteq> w_nents w" using told by blast
    then show "\<exists>e. p_e (w_props ?w p) = Some e \<and> tableOf ?w e (p_key (w_props ?w p)) = Some p"
      using e t by simp }
  { fix p e assume a: "p_e (w_props ?w p) = Some e"
    then show "p_attached (w_props ?w p)" using wellformed_owner [OF w, of p e] by simp }
  { fix e assume "e_deleted (w_ents ?w e)"
    then show "e_props (w_ents ?w e) = []" using wellformed_deleted [OF w, of e] ent by (simp split: if_splits) }
  { fix e show "distinct (map fst (e_props (w_ents ?w e)))"
      using wellformed_distinct [OF w, of e] ent by simp }
qed


lemma tableOf_removeKey:
  "tableOf (removeKey e k w) e' k' = (if e' = e \<and> k' = k then None else tableOf w e' k')"
  by (simp add: removeKey_def tableOf_def delete_conv')

lemma tableOf_storeProp:
  "tableOf (storeProp e k p w) e' k' = (if e' = e \<and> k' = k then Some p else tableOf w e' k')"
  by (simp add: storeProp_def tableOf_def update_conv')

lemma tableOf_detatch: "tableOf (detatch p w) = tableOf w"
  by (simp add: detatch_def tableOf_def fun_eq_iff)

lemma props_detatch:
  "w_props (detatch p w) q =
     (if q = p then (w_props w p)\<lparr>p_attached := False, p_e := None\<rparr> else w_props w q)"
  by (simp add: detatch_def)

lemma fold_detatch_fields:
  "w_ents (fold detatch ps w) = w_ents w \<and> w_nents (fold detatch ps w) = w_nents w \<and>
   w_nprops (fold detatch ps w) = w_nprops w \<and> w_univs (fold detatch ps w) = w_univs w \<and>
   w_buckets (fold detatch ps w) = w_buckets w \<and> w_nbuckets (fold detatch ps w) = w_nbuckets w \<and>
   w_arrays (fold detatch ps w) = w_arrays w \<and> w_narrays (fold detatch ps w) = w_narrays w"
  by (induction ps arbitrary: w) (simp_all add: detatch_def)

lemma fold_detatch_props:
  "w_props (fold detatch ps w) q =
     (if q \<in> set ps then (w_props w q)\<lparr>p_attached := False, p_e := None\<rparr> else w_props w q)"
proof (induction ps arbitrary: w)
  case Nil
  then show ?case by simp
next
  case (Cons p ps)
  show ?case
    by (simp add: Cons.IH props_detatch)
qed

text \<open>Taking a Prop out of the map it is in and detaching it, as \<open>Entity.Remove\<close> and
  \<open>Prop.Remove\<close> do.\<close>

lemma wellformed_remove:
  assumes w: "wellformed w" and t: "tableOf w e k = Some p"
  shows "wellformed (detatch p (removeKey e k w))"
proof (rule wellformedI)
  let ?w = "detatch p (removeKey e k w)"
  have T: "\<And>e' k'. tableOf ?w e' k' = (if e' = e \<and> k' = k then None else tableOf w e' k')"
    by (simp add: tableOf_detatch tableOf_removeKey)
  have P: "\<And>q. w_props ?w q =
      (if q = p then (w_props w p)\<lparr>p_attached := False, p_e := None\<rparr> else w_props w q)"
    by (simp add: props_detatch) (simp add: removeKey_def)
  have N: "w_nents ?w = w_nents w" "w_nprops ?w = w_nprops w"
    by (simp_all add: detatch_def removeKey_def)
  have p: "p_key (w_props w p) = k" "p_e (w_props w p) = Some e"
    using wellformed_table [OF w t] by simp_all
  { fix e' k' q assume a: "tableOf ?w e' k' = Some q"
    then have o: "tableOf w e' k' = Some q" and ne: "\<not> (e' = e \<and> k' = k)"
      using T by (simp_all split: if_splits)
    have "q \<noteq> p" using wellformed_table [OF w o] p ne by auto
    then show "e' < w_nents ?w \<and> q < w_nprops ?w \<and> p_key (w_props ?w q) = k' \<and>
        p_e (w_props ?w q) = Some e' \<and> p_attached (w_props ?w q)"
      using wellformed_table [OF w o] P N by simp }
  { fix q assume a: "p_attached (w_props ?w q)"
    then have qp: "q \<noteq> p" using P by (auto split: if_splits)
    then have "p_attached (w_props w q)" using a P by simp
    then obtain e' where e': "p_e (w_props w q) = Some e'" "tableOf w e' (p_key (w_props w q)) = Some q"
      using wellformed_attached [OF w] by blast
    have "\<not> (e' = e \<and> p_key (w_props w q) = k)" using e' t qp by auto
    then show "\<exists>e. p_e (w_props ?w q) = Some e \<and> tableOf ?w e (p_key (w_props ?w q)) = Some q"
      using e' qp P T by auto }
  { fix q e' assume a: "p_e (w_props ?w q) = Some e'"
    then have qp: "q \<noteq> p" using P by (auto split: if_splits)
    then show "p_attached (w_props ?w q)" using a P wellformed_owner [OF w, of q e'] by simp }
  { fix e' assume "e_deleted (w_ents ?w e')"
    then show "e_props (w_ents ?w e') = []"
      using wellformed_deleted [OF w, of e'] by (auto simp: detatch_def removeKey_def split: if_splits) }
  { fix e' show "distinct (map fst (e_props (w_ents ?w e')))"
      using wellformed_distinct [OF w, of e'] wellformed_distinct [OF w, of e]
      by (simp add: detatch_def removeKey_def distinct_delete) }
qed


lemma wellformed_Entity_Remove: "wellformed w \<Longrightarrow> wellformed (snd (Entity_Remove e key w))"
  using wellformed_remove [of w _ key] 
  by (auto simp: Entity_Remove_def tableOf_def split: option.splits)

lemma wellformed_Prop_Remove:
  assumes w: "wellformed w"
  shows "wellformed (Prop_Remove p w)"
proof (cases p)
  case None
  then show ?thesis using w by (simp add: Prop_Remove_def)
next
  case (Some a)
  show ?thesis
  proof (cases "p_e (w_props w a)")
    case (Some e)
    then have "p_attached (w_props w a)" using wellformed_owner [OF w] by blast
    then have "tableOf w e (p_key (w_props w a)) = Some a"
      using wellformed_attached [OF w, of a] Some by auto
    then show ?thesis
      using wellformed_remove [OF w] Some \<open>p = Some a\<close> by (simp add: Prop_Remove_def)
  next
    case None
    then have "\<not> p_attached (w_props w a)" using wellformed_attached [OF w, of a] by auto
    then have "(w_props w a)\<lparr>p_attached := False, p_e := None\<rparr> = w_props w a"
      using None by (cases "w_props w a") simp
    then have "detatch a w = w" by (simp add: detatch_def)
    then show ?thesis using w None \<open>p = Some a\<close> by (simp add: Prop_Remove_def)
  qed
qed

lemma wellformed_Entity_Delete:
  assumes w: "wellformed w"
  shows "wellformed (Entity_Delete e w)"
proof (cases e)
  case None
  then show ?thesis using w by (simp add: Entity_Delete_def)
next
  case (Some a)
  let ?ps = "map snd (e_props (w_ents w a))"
  let ?w = "Entity_Delete (Some a) w"
  have E: "\<And>e'. w_ents ?w e' =
      (if e' = a then (w_ents w a)\<lparr>e_deleted := True, e_props := [], e_u := None\<rparr> else w_ents w e')"
    by (simp add: Entity_Delete_def Let_def fold_detatch_fields)
  have T: "\<And>e' k'. tableOf ?w e' k' = (if e' = a then None else tableOf w e' k')"
    by (simp add: tableOf_def E)
  have P: "\<And>q. w_props ?w q =
      (if q \<in> set ?ps then (w_props w q)\<lparr>p_attached := False, p_e := None\<rparr> else w_props w q)"
    by (simp add: Entity_Delete_def Let_def fold_detatch_props fold_detatch_fields)
  have N: "w_nents ?w = w_nents w" "w_nprops ?w = w_nprops w"
    by (simp_all add: Entity_Delete_def Let_def fold_detatch_fields)
  have inps: "\<And>q. q \<in> set ?ps \<longleftrightarrow> (\<exists>k. tableOf w a k = Some q)"
    using wellformed_distinct [OF w, of a] by (auto simp: tableOf_def) (force simp: image_iff)+
  have wfq: "wellformed ?w"
  proof (rule wellformedI)
    { fix e' k' q assume a: "tableOf ?w e' k' = Some q"
      then have o: "tableOf w e' k' = Some q" and ne: "e' \<noteq> a"
        using T by (simp_all split: if_splits)
      have "q \<notin> set ?ps" using inps wellformed_table [OF w o] wellformed_table [OF w, of a _ q] ne by auto
      then show "e' < w_nents ?w \<and> q < w_nprops ?w \<and> p_key (w_props ?w q) = k' \<and>
          p_e (w_props ?w q) = Some e' \<and> p_attached (w_props ?w q)"
        using wellformed_table [OF w o] P N by simp }
    { fix q assume a: "p_attached (w_props ?w q)"
      then have qp: "q \<notin> set ?ps" using P by (auto split: if_splits)
      then have "p_attached (w_props w q)" using a P by simp
      then obtain e' where e': "p_e (w_props w q) = Some e'" "tableOf w e' (p_key (w_props w q)) = Some q"
        using wellformed_attached [OF w] by blast
      have "e' \<noteq> a" using e' qp inps by auto
      then show "\<exists>e. p_e (w_props ?w q) = Some e \<and> tableOf ?w e (p_key (w_props ?w q)) = Some q"
        using e' qp P T by auto }
    { fix q e' assume a: "p_e (w_props ?w q) = Some e'"
      then have qp: "q \<notin> set ?ps" using P by (auto split: if_splits)
      then show "p_attached (w_props ?w q)" using a P wellformed_owner [OF w, of q e'] by simp }
    { fix e' assume "e_deleted (w_ents ?w e')"
      then show "e_props (w_ents ?w e') = []"
        using wellformed_deleted [OF w, of e'] E by (auto split: if_splits) }
    { fix e' show "distinct (map fst (e_props (w_ents ?w e')))"
        using wellformed_distinct [OF w, of e'] E by simp }
  qed
  then show ?thesis using Some by simp
qed


text \<open>A live Prop that \<open>loadProp\<close> does not find is not in the map at all.\<close>

lemma loadProp_None_table:
  assumes w: "wellformed w" and d: "\<not> e_deleted (w_ents w a)" and l: "loadProp w (Some a) key = None"
  shows "tableOf w a key = None"
proof (cases "tableOf w a key")
  case None
  then show ?thesis .
next
  case (Some x)
  then have "p_attached (w_props w x)" using wellformed_table [OF w] by blast
  then show ?thesis
    using Some d l by (simp add: loadProp_def tableOf_def Prop_Removed_def)
qed

lemma loadProp_Some_table:
  "loadProp w (Some a) key = Some p \<Longrightarrow>
     tableOf w a key = Some p \<and> \<not> e_deleted (w_ents w a) \<and> p_attached (w_props w p)"
  by (auto simp: loadProp_def tableOf_def Prop_Removed_def split: if_splits option.splits)

text \<open>The store after \<open>Put\<close> has allocated, attached and stored a new Prop.\<close>

lemma wellformed_Put_fresh:
  assumes w: "wellformed w" and a: "a < w_nents w" and d: "\<not> e_deleted (w_ents w a)"
    and t: "tableOf w a key = None"
    and P: "w_props w' = (w_props w)(w_nprops w := \<lparr>p_e = Some a, p_key = key, p_attached = True, p_data = x\<rparr>)"
    and NP: "w_nprops w' = Suc (w_nprops w)"
    and E: "w_ents w' = (w_ents w)(a := (w_ents w a)\<lparr>e_props := AList.update key (w_nprops w) (e_props (w_ents w a))\<rparr>)"
    and NE: "w_nents w' = w_nents w"
  shows "wellformed w'"
proof (rule wellformedI)
  let ?n = "w_nprops w"
  have T: "\<And>e' k'. tableOf w' e' k' = (if e' = a \<and> k' = key then Some ?n else tableOf w e' k')"
    by (simp add: tableOf_def E update_conv')
  have old: "\<And>e' k' q. tableOf w e' k' = Some q \<Longrightarrow> q \<noteq> ?n"
    using wellformed_table [OF w] by fastforce
  { fix e' k' q assume h: "tableOf w' e' k' = Some q"
    show "e' < w_nents w' \<and> q < w_nprops w' \<and> p_key (w_props w' q) = k' \<and>
        p_e (w_props w' q) = Some e' \<and> p_attached (w_props w' q)"
    proof (cases "e' = a \<and> k' = key")
      case True
      then show ?thesis using h T a P NP NE by simp
    next
      case False
      then have o: "tableOf w e' k' = Some q" using h T by (auto split: if_splits)
      then show ?thesis using wellformed_table [OF w o] old [OF o] P NP NE by simp
    qed }
  { fix q assume h: "p_attached (w_props w' q)"
    show "\<exists>e. p_e (w_props w' q) = Some e \<and> tableOf w' e (p_key (w_props w' q)) = Some q"
    proof (cases "q = ?n")
      case True
      then show ?thesis using P T by simp
    next
      case False
      then have "p_attached (w_props w q)" using h P by simp
      then obtain e' where e': "p_e (w_props w q) = Some e'" "tableOf w e' (p_key (w_props w q)) = Some q"
        using wellformed_attached [OF w] by blast
      then have "\<not> (e' = a \<and> p_key (w_props w q) = key)" using t by auto
      then show ?thesis using e' False P T by auto
    qed }
  { fix q e' assume h: "p_e (w_props w' q) = Some e'"
    then show "p_attached (w_props w' q)"
      using P wellformed_owner [OF w, of q e'] by (cases "q = ?n") simp_all }
  { fix e' assume "e_deleted (w_ents w' e')"
    then show "e_props (w_ents w' e') = []"
      using wellformed_deleted [OF w, of e'] E d by (auto split: if_splits) }
  { fix e' show "distinct (map fst (e_props (w_ents w' e')))"
      using wellformed_distinct [OF w, of e'] wellformed_distinct [OF w, of a] E by (simp add: distinct_update) }
qed

lemma wellformed_Entity_Put:
  assumes w: "wellformed w" and a: "isEntity w e" and r: "Entity_Put grow e key data w = Inr (p, w')"
  shows "wellformed w'"
proof (cases e)
  case None
  then show ?thesis using r by (simp add: Entity_Put_def)
next
  case (Some a)
  then have alloc: "a < w_nents w" using a by (simp add: isEntity_def)
  show ?thesis
  proof (cases "e_deleted (w_ents w a)")
    case True
    then show ?thesis using r w Some by (simp add: Entity_Put_def)
  next
    case nd: False
    show ?thesis
    proof (cases "loadProp w (Some a) key")
      case (Some q)
      then show ?thesis using r w nd \<open>e = Some a\<close> by (auto simp: Entity_Put_def wellformed_putData)
    next
      case None
      have t: "tableOf w a key = None" using w nd None by (rule loadProp_None_table)
      let ?n = "w_nprops w"
      let ?w2 = "attach ?n (Some a) (w\<lparr>w_props := (w_props w)(?n := zeroProp\<lparr>p_key := key\<rparr>), w_nprops := Suc ?n\<rparr>)"
      have m: "map_of (e_props (w_ents ?w2 a)) key = None"
        using t by (simp add: attach_def tableOf_def)
      have w': "w' = snd (Put_store grow a key ?n data ?w2)"
        using r nd None m \<open>e = Some a\<close> by (simp add: Entity_Put_def Let_def)
      have H: "heapOf w' = heapOf (putData ?n data (storeProp a key ?n ?w2))"
        unfolding w' by (rule heapOf_Put_store)
      show ?thesis
      proof (rule wellformed_Put_fresh [OF w alloc nd t, where x = "packData data"])
        show "w_props w' = (w_props w)(?n := \<lparr>p_e = Some a, p_key = key, p_attached = True, p_data = packData data\<rparr>)"
          using heapOf_props [OF H] by (simp add: putData_def storeProp_def attach_def zeroProp_def)
        show "w_nprops w' = Suc ?n"
          using heapOf_nprops [OF H] by (simp add: putData_def storeProp_def attach_def)
        show "w_ents w' = (w_ents w)(a := (w_ents w a)\<lparr>e_props := AList.update key ?n (e_props (w_ents w a))\<rparr>)"
          using heapOf_ents [OF H] by (simp add: putData_def storeProp_def attach_def)
        show "w_nents w' = w_nents w"
          using heapOf_nents [OF H] by (simp add: putData_def storeProp_def attach_def)
      qed
    qed
  qed
qed

lemma wellformed_do_op:
  assumes w: "wellformed w" and r: "do_op grow op w = Inr w'"
  shows "wellformed w'"
proof (cases op)
  case (NewEntity u)
  then show ?thesis
    using r wellformed_newEntity [OF w, of "zeroEntity\<lparr>e_u := Some u\<rparr>"]
    by (auto simp: Universe_Entity_def Let_def zeroEntity_def)
next
  case NewZeroEntity
  then show ?thesis
    using r wellformed_newEntity [OF w, of zeroEntity] by (auto simp: newZeroEntity_def zeroEntity_def)
next
  case NewZeroProp
  then show ?thesis using r wellformed_newZeroProp [OF w] by auto
next
  case (Put e key data)
  then show ?thesis
    using r wellformed_Entity_Put [OF w, of e grow key data]
    by (auto split: if_splits sum.splits)
next
  case (Remove e key)
  then show ?thesis using r wellformed_Entity_Remove [OF w, of e key] by (auto split: if_splits)
next
  case (Delete e)
  then show ?thesis using r wellformed_Entity_Delete [OF w, of e] by (auto split: if_splits)
next
  case (PropRemove p)
  then show ?thesis using r wellformed_Prop_Remove [OF w, of p] by (auto split: if_splits)
next
  case (PropPutData p data)
  then show ?thesis
    using r wellformed_putData [OF w] by (auto simp: Prop_PutData_def split: if_splits option.splits)
qed

lemma wellformed_exec: "wellformed w \<Longrightarrow> wellformed (snd (exec grow prog w))"
  using wellformed_heapOf wellformed_do_op by (rule exec_preserves)

lemma exec_preserves_when:
  assumes frame: "\<And>w w'. heapOf w = heapOf w' \<Longrightarrow> P w \<Longrightarrow> P w'"
    and ops: "\<And>op w w'. ok op \<Longrightarrow> P w \<Longrightarrow> do_op grow op w = Inr w' \<Longrightarrow> P w'"
  shows "all_ops ok prog \<Longrightarrow> P w \<Longrightarrow> P (snd (exec grow prog w))"
proof (induction prog arbitrary: w)
  case (Return r)
  then show ?case by simp
next
  case (Do op k)
  then show ?case using ops by (cases "do_op grow op w") auto
next
  case (Range u key cb k)
  have fn: "\<And>p w. P w \<Longrightarrow> P (snd (exec grow (cb p) w))"
    using Range.IH(1) Range.prems(1) by simp
  obtain evs r w1 where l: "propDB_Range u key (\<lambda>p. exec grow (cb p)) w = (evs, r, w1)"
    by (cases "propDB_Range u key (\<lambda>p. exec grow (cb p)) w") auto
  have "P (snd (snd (propDB_Range u key (\<lambda>p. exec grow (cb p)) w)))"
    using frame fn Range.prems(2) by (rule propDB_Range_preserves)
  then have "P w1" using l by simp
  then show ?case using l Range.IH(2) Range.prems(1) by (cases r) simp_all
next
  case (Read f)
  then show ?case by simp
qed

text \<open>What \<open>Put\<close> does to a well-formed store: nothing on a deleted Entity; it writes
  the data of the live Prop of the key; or it adds a new Prop.\<close>

lemma Entity_Put_cases [consumes 2, case_names deleted found fresh]:
  assumes w: "wellformed w" and r: "Entity_Put grow (Some a) key data w = Inr (p, w')"
    and del: "e_deleted (w_ents w a) \<Longrightarrow> p = None \<Longrightarrow> w' = w \<Longrightarrow> R"
    and found: "\<And>q. \<not> e_deleted (w_ents w a) \<Longrightarrow> tableOf w a key = Some q \<Longrightarrow>
                 p_attached (w_props w q) \<Longrightarrow> p = Some q \<Longrightarrow> w' = putData q data w \<Longrightarrow> R"
    and fresh: "\<not> e_deleted (w_ents w a) \<Longrightarrow> tableOf w a key = None \<Longrightarrow> p = Some (w_nprops w) \<Longrightarrow>
       w_props w' = (w_props w)(w_nprops w :=
          \<lparr>p_e = Some a, p_key = key, p_attached = True, p_data = packData data\<rparr>) \<Longrightarrow>
       w_nprops w' = Suc (w_nprops w) \<Longrightarrow>
       w_ents w' = (w_ents w)(a := (w_ents w a)\<lparr>e_props := AList.update key (w_nprops w) (e_props (w_ents w a))\<rparr>) \<Longrightarrow>
       w_nents w' = w_nents w \<Longrightarrow> R"
  shows R
proof (cases "e_deleted (w_ents w a)")
  case True
  then have "p = None" "w' = w" using r by (simp_all add: Entity_Put_def)
  then show ?thesis using True by (intro del)
next
  case nd: False
  show ?thesis
  proof (cases "loadProp w (Some a) key")
    case (Some q)
    then have "p = Some q" "w' = putData q data w" using r nd by (simp_all add: Entity_Put_def)
    then show ?thesis
      using nd loadProp_Some_table [OF Some] by (intro found [of q]) simp_all
  next
    case None
    have t: "tableOf w a key = None" using w nd None by (rule loadProp_None_table)
    let ?n = "w_nprops w"
    let ?w2 = "attach ?n (Some a) (w\<lparr>w_props := (w_props w)(?n := zeroProp\<lparr>p_key := key\<rparr>), w_nprops := Suc ?n\<rparr>)"
    have m: "map_of (e_props (w_ents ?w2 a)) key = None"
      using t by (simp add: attach_def tableOf_def)
    have pw: "(p, w') = Put_store grow a key ?n data ?w2"
      using r nd None m by (simp add: Entity_Put_def Let_def)
    then have p: "p = Some ?n" and w': "w' = snd (Put_store grow a key ?n data ?w2)"
      using fst_Put_store [of grow a key ?n data ?w2] by (metis fst_conv, metis snd_conv)
    have H: "heapOf w' = heapOf (putData ?n data (storeProp a key ?n ?w2))"
      unfolding w' by (rule heapOf_Put_store)
    show ?thesis
    proof (rule fresh [OF nd t p])
      show "w_props w' = (w_props w)(?n := \<lparr>p_e = Some a, p_key = key, p_attached = True, p_data = packData data\<rparr>)"
        using heapOf_props [OF H] by (simp add: putData_def storeProp_def attach_def zeroProp_def)
      show "w_nprops w' = Suc ?n"
        using heapOf_nprops [OF H] by (simp add: putData_def storeProp_def attach_def)
      show "w_ents w' = (w_ents w)(a := (w_ents w a)\<lparr>e_props := AList.update key ?n (e_props (w_ents w a))\<rparr>)"
        using heapOf_ents [OF H] by (simp add: putData_def storeProp_def attach_def)
      show "w_nents w' = w_nents w"
        using heapOf_nents [OF H] by (simp add: putData_def storeProp_def attach_def)
    qed
  qed
qed

lemma Entity_Get_wf:
  assumes w: "wellformed w" and g: "Entity_Get w e k = Some p"
  shows "\<not> Prop_Removed w (Some p) \<and> Prop_Key w (Some p) = Inr k \<and> Prop_Entity w (Some p) = Some e"
proof -
  have t: "tableOf w e k = Some p" and a: "p_attached (w_props w p)"
    using loadProp_Some_table [of w e k p] g by (simp_all add: Entity_Get_def)
  show ?thesis
    using wellformed_table [OF w t] by (simp add: Prop_Removed_def Prop_Key_def Prop_Entity_def)
qed

section \<open>The claims on all programs\<close>

text \<open>
  Claim C10.  After any program run from the empty store (any sequence of \<open>Put\<close>,
  \<open>Remove\<close>, \<open>Delete\<close>, \<open>Range\<close> with any callbacks, and the other calls), a Prop that
  \<open>Get\<close> returns for an Entity and a key is not removed, has that key, and has that
  Entity as its owner.
\<close>

theorem Get_returns_live_owned_Prop:
  assumes "Entity_Get (snd (exec grow prog emptyWorld)) e k = Some p"
  shows "\<not> Prop_Removed (snd (exec grow prog emptyWorld)) (Some p)
         \<and> Prop_Key (snd (exec grow prog emptyWorld)) (Some p) = Inr k
         \<and> Prop_Entity (snd (exec grow prog emptyWorld)) (Some p) = Some e"
  using Entity_Get_wf [OF wellformed_exec [OF wellformed_emptyWorld] assms] .

theorem Get_returns_live_owned_Prop_witness:
  "Entity_Get (snd (exec exGrow (exSetup (Return True)) emptyWorld)) 2 ''k'' = Some 2
   \<and> \<not> Prop_Removed (snd (exec exGrow (exSetup (Return True)) emptyWorld)) (Some 2)
   \<and> Prop_Key (snd (exec exGrow (exSetup (Return True)) emptyWorld)) (Some 2) = Inr ''k''
   \<and> Prop_Entity (snd (exec exGrow (exSetup (Return True)) emptyWorld)) (Some 2) = Some 2"
proof -
  have g: "Entity_Get (snd (exec exGrow (exSetup (Return True)) emptyWorld)) 2 ''k'' = Some 2"
    by (simp add: exSetup_world) (simp add: exThree_def Entity_Get_def loadProp_def Prop_Removed_def)
  show ?thesis
    using g Get_returns_live_owned_Prop [OF g] by simp
qed

text \<open>A Prop that is allocated and removed stays so under every call.\<close>

lemma removed_do_op:
  assumes w: "wellformed w" and p: "p < w_nprops w" "\<not> p_attached (w_props w p)"
    and r: "do_op grow op w = Inr w'"
  shows "p < w_nprops w' \<and> \<not> p_attached (w_props w' p)"
proof (cases op)
  case (NewEntity u)
  then show ?thesis using r p by (auto simp: Universe_Entity_def Let_def)
next
  case NewZeroEntity
  then show ?thesis using r p by (auto simp: newZeroEntity_def)
next
  case NewZeroProp
  then show ?thesis using r p by (auto simp: newZeroProp_def)
next
  case (Put e key data)
  show ?thesis
  proof (cases e)
    case None
    then show ?thesis using r Put by (simp add: Entity_Put_def split: if_splits)
  next
    case (Some a)
    then obtain q where q: "Entity_Put grow (Some a) key data w = Inr (q, w')"
      using r Put by (auto split: if_splits sum.splits)
    from w q show ?thesis
      using p by (cases rule: Entity_Put_cases) (auto simp: putData_def)
  qed
next
  case (Remove e key)
  then show ?thesis
    using r p by (auto simp: Entity_Remove_def detatch_def removeKey_def split: if_splits option.splits)
next
  case (Delete e)
  then show ?thesis
    using r p
    by (cases e) (auto simp: Entity_Delete_def Let_def fold_detatch_props fold_detatch_fields split: if_splits)
next
  case (PropRemove q)
  then show ?thesis
    using r p by (auto simp: Prop_Remove_def detatch_def removeKey_def split: if_splits option.splits)
next
  case (PropPutData q data)
  then show ?thesis
    using r p by (auto simp: Prop_PutData_def putData_def split: if_splits option.splits)
qed

lemma removed_exec:
  assumes "wellformed w" "p < w_nprops w" "\<not> p_attached (w_props w p)"
  shows "wellformed (snd (exec grow prog w)) \<and> p < w_nprops (snd (exec grow prog w))
         \<and> \<not> p_attached (w_props (snd (exec grow prog w)) p)"
proof -
  let ?P = "\<lambda>w. wellformed w \<and> p < w_nprops w \<and> \<not> p_attached (w_props w p)"
  have "?P (snd (exec grow prog w))"
  proof (rule exec_preserves [where P = ?P])
    show "\<And>w w'. heapOf w = heapOf w' \<Longrightarrow> ?P w \<Longrightarrow> ?P w'"
      using wellformed_heapOf by (auto simp: heapOf_def)
    show "\<And>op w w'. ?P w \<Longrightarrow> do_op grow op w = Inr w' \<Longrightarrow> ?P w'"
      using wellformed_do_op removed_do_op by blast
    show "?P w" using assms by simp
  qed
  then show ?thesis .
qed

lemma wellformed_exOne: "wellformed exOne"
  using wellformed_newEntity [OF wellformed_emptyWorld, of "zeroEntity\<lparr>e_u := Some 0\<rparr>"]
  by (simp add: exOne_def Universe_Entity_def Let_def zeroEntity_def)

lemma exOne_entity: "0 < w_nents exOne \<and> \<not> e_deleted (w_ents exOne 0)"
  by (simp add: exOne_def Universe_Entity_def Let_def emptyWorld_def zeroEntity_def)

text \<open>
  Claim C6.  On an Entity that is allocated and not deleted, \<open>Put\<close> returns a Prop
  \<open>p1\<close>.  After that Prop is removed, by \<open>Prop.Remove\<close> or by \<open>Entity.Remove\<close> of the
  key, it is removed, and a \<open>Put\<close> of the same key right then returns a Prop other
  than \<open>p1\<close>.  Whatever program runs after the removal, \<open>p1\<close> is removed after it, and no
  later \<open>Put\<close> of the key on the Entity returns \<open>p1\<close>.
\<close>

theorem removed_Prop_never_reused:
  assumes w: "wellformed w" and a: "a < w_nents w" and nd: "\<not> e_deleted (w_ents w a)"
  shows "\<exists>p1 w1. Entity_Put grow (Some a) key d1 w = Inr (Some p1, w1)
           \<and> (\<forall>w2. w2 = Prop_Remove (Some p1) w1 \<or> w2 = snd (Entity_Remove (Some a) key w1) \<longrightarrow>
                 Prop_Removed w2 (Some p1)
                 \<and> (\<exists>p2 w3. Entity_Put grow (Some a) key d2 w2 = Inr (Some p2, w3) \<and> p2 \<noteq> p1)
                 \<and> (\<forall>prog. Prop_Removed (snd (exec grow prog w2)) (Some p1))
                 \<and> (\<forall>prog d p w3.
                       Entity_Put grow (Some a) key d (snd (exec grow prog w2)) = Inr (p, w3) \<longrightarrow>
                       p \<noteq> Some p1 \<and> Prop_Removed w3 (Some p1)))"
proof -
  obtain p1 w1 where put: "Entity_Put grow (Some a) key d1 w = Inr (Some p1, w1)"
    and load: "loadProp w1 (Some a) key = Some p1"
    using Entity_Put_live [OF nd] by blast
  have w1: "wellformed w1" using w put a by (intro wellformed_Entity_Put [OF w _ put]) (simp add: isEntity_def)
  have t: "tableOf w1 a key = Some p1" and nd1: "\<not> e_deleted (w_ents w1 a)"
    using loadProp_Some_table [OF load] by simp_all
  have p1: "p1 < w_nprops w1" "p_key (w_props w1 p1) = key" "p_e (w_props w1 p1) = Some a"
    using wellformed_table [OF w1 t] by simp_all
  let ?w2 = "detatch p1 (removeKey a key w1)"
  have PR: "Prop_Remove (Some p1) w1 = ?w2" using p1 by (simp add: Prop_Remove_def)
  have ER: "snd (Entity_Remove (Some a) key w1) = ?w2"
    using t nd1 by (simp add: Entity_Remove_def tableOf_def)
  have w2: "wellformed ?w2" using w1 t by (rule wellformed_remove)
  have r2: "p1 < w_nprops ?w2" "\<not> p_attached (w_props ?w2 p1)"
    using p1 by (simp_all add: detatch_def removeKey_def)
  have nd2: "\<not> e_deleted (w_ents ?w2 a)" using nd1 by (simp add: detatch_def removeKey_def)
  have later: "p \<noteq> Some p1 \<and> Prop_Removed w3 (Some p1)"
    if q: "Entity_Put grow (Some a) key d (snd (exec grow prog ?w2)) = Inr (p, w3)" for prog d p w3
  proof -
    let ?w = "snd (exec grow prog ?w2)"
    have i: "wellformed ?w" "p1 < w_nprops ?w" "\<not> p_attached (w_props ?w p1)"
      using removed_exec [OF w2 r2, of grow prog] by simp_all
    from i(1) q show ?thesis
      using i(2,3) by (cases rule: Entity_Put_cases) (auto simp: Prop_Removed_def putData_def)
  qed
  have forever: "Prop_Removed (snd (exec grow prog ?w2)) (Some p1)" for prog
    using removed_exec [OF w2 r2, of grow prog] by (simp add: Prop_Removed_def)
  obtain p2 w3 where again: "Entity_Put grow (Some a) key d2 ?w2 = Inr (Some p2, w3)"
    using Entity_Put_live [OF nd2] by blast
  have "Some p2 \<noteq> Some p1" using later [of d2 "Return True" "Some p2" w3] again by simp
  then have again': "\<exists>p2 w3. Entity_Put grow (Some a) key d2 ?w2 = Inr (Some p2, w3) \<and> p2 \<noteq> p1"
    using again by auto
  have now: "Prop_Removed ?w2 (Some p1)" using r2 by (simp add: Prop_Removed_def)
  let ?Q = "\<lambda>w2. Prop_Removed w2 (Some p1)
                 \<and> (\<exists>p2 w3. Entity_Put grow (Some a) key d2 w2 = Inr (Some p2, w3) \<and> p2 \<noteq> p1)
                 \<and> (\<forall>prog. Prop_Removed (snd (exec grow prog w2)) (Some p1))
                 \<and> (\<forall>prog d p w3.
                       Entity_Put grow (Some a) key d (snd (exec grow prog w2)) = Inr (p, w3) \<longrightarrow>
                       p \<noteq> Some p1 \<and> Prop_Removed w3 (Some p1))"
  have main: "?Q ?w2"
    using now again' forever later by blast
  have "\<forall>w2. w2 = Prop_Remove (Some p1) w1 \<or> w2 = snd (Entity_Remove (Some a) key w1) \<longrightarrow> ?Q w2"
    unfolding PR ER using main by blast
  then show ?thesis using put by blast
qed

theorem removed_Prop_never_reused_witness:
  "wellformed exOne \<and> 0 < w_nents exOne \<and> \<not> e_deleted (w_ents exOne 0)
   \<and> (\<exists>p1 w1. Entity_Put exGrow (Some 0) ''k'' [] exOne = Inr (Some p1, w1)
         \<and> Prop_Removed (Prop_Remove (Some p1) w1) (Some p1)
         \<and> (\<exists>p2 w3. Entity_Put exGrow (Some 0) ''k'' [] (Prop_Remove (Some p1) w1) = Inr (Some p2, w3)
               \<and> p2 \<noteq> p1))"
proof -
  have e: "0 < w_nents exOne" "\<not> e_deleted (w_ents exOne 0)" using exOne_entity by simp_all
  obtain p1 w1 where put: "Entity_Put exGrow (Some 0) ''k'' [] exOne = Inr (Some p1, w1)"
    and rest: "\<forall>w2. w2 = Prop_Remove (Some p1) w1 \<or> w2 = snd (Entity_Remove (Some 0) ''k'' w1) \<longrightarrow>
                 Prop_Removed w2 (Some p1)
                 \<and> (\<exists>p2 w3. Entity_Put exGrow (Some 0) ''k'' [] w2 = Inr (Some p2, w3) \<and> p2 \<noteq> p1)
                 \<and> (\<forall>prog. Prop_Removed (snd (exec exGrow prog w2)) (Some p1))
                 \<and> (\<forall>prog d p w3.
                       Entity_Put exGrow (Some 0) ''k'' d (snd (exec exGrow prog w2)) = Inr (p, w3) \<longrightarrow>
                       p \<noteq> Some p1 \<and> Prop_Removed w3 (Some p1))"
    using removed_Prop_never_reused [OF wellformed_exOne e, of exGrow "''k''" "[]" "[]"] by (elim exE conjE)
  have "Prop_Removed (Prop_Remove (Some p1) w1) (Some p1)
        \<and> (\<exists>p2 w3. Entity_Put exGrow (Some 0) ''k'' [] (Prop_Remove (Some p1) w1) = Inr (Some p2, w3)
               \<and> p2 \<noteq> p1)"
    using rest [rule_format, of "Prop_Remove (Some p1) w1"] by simp
  then show ?thesis
    using wellformed_exOne e put by blast
qed

text \<open>\<open>Put\<close> changes no Entity but its receiver.\<close>

lemma ents_Put_store:
  "w_nents (snd (Put_store grow b key n data w)) = w_nents w \<and>
   (a \<noteq> b \<longrightarrow> w_ents (snd (Put_store grow b key n data w)) a = w_ents w a)"
  using heapOf_ents [OF heapOf_Put_store [of grow b key n data w]]
    heapOf_nents [OF heapOf_Put_store [of grow b key n data w]]
  by (simp add: putData_def storeProp_def)

lemma ents_Entity_Put:
  assumes "Entity_Put grow (Some b) key data w = Inr (p, w')"
  shows "w_nents w' = w_nents w \<and> (a \<noteq> b \<longrightarrow> w_ents w' a = w_ents w a)"
proof (cases "e_deleted (w_ents w b)")
  case True
  then show ?thesis using assms by (simp add: Entity_Put_def)
next
  case nd: False
  show ?thesis
  proof (cases "loadProp w (Some b) key")
    case (Some q)
    then show ?thesis using assms nd by (auto simp: Entity_Put_def putData_def)
  next
    case None
    let ?n = "w_nprops w"
    let ?w2 = "attach ?n (Some b) (w\<lparr>w_props := (w_props w)(?n := zeroProp\<lparr>p_key := key\<rparr>), w_nprops := Suc ?n\<rparr>)"
    have e2: "w_ents ?w2 = w_ents w" "w_nents ?w2 = w_nents w" by (simp_all add: attach_def)
    have "w' = snd (Put_store grow b key ?n data ?w2) \<or> (\<exists>x. w' = putData x data ?w2)"
      using assms nd None by (auto simp: Entity_Put_def Let_def split: option.splits if_splits)
    then show ?thesis
      using ents_Put_store [of grow b key ?n data ?w2 a] e2 by (auto simp: putData_def)
  qed
qed

text \<open>A deleted Entity: allocated, marked, with an empty map and no Universe.\<close>

lemma deleted_do_op:
  assumes a: "a < w_nents w" and d: "w_ents w a = \<lparr>e_u = None, e_props = [], e_deleted = True\<rparr>"
    and r: "do_op grow op w = Inr w'"
  shows "a < w_nents w' \<and> w_ents w' a = \<lparr>e_u = None, e_props = [], e_deleted = True\<rparr>"
proof (cases op)
  case (NewEntity u)
  then show ?thesis using r a d by (auto simp: Universe_Entity_def Let_def)
next
  case NewZeroEntity
  then show ?thesis using r a d by (auto simp: newZeroEntity_def)
next
  case NewZeroProp
  then show ?thesis using r a d by (auto simp: newZeroProp_def)
next
  case (Put e key data)
  show ?thesis
  proof (cases e)
    case None
    then show ?thesis using r Put by (simp add: Entity_Put_def split: if_splits)
  next
    case (Some b)
    then obtain q where q: "Entity_Put grow (Some b) key data w = Inr (q, w')"
      using r Put by (auto split: if_splits sum.splits)
    show ?thesis
    proof (cases "b = a")
      case True
      then have "w' = w" using q d by (simp add: Entity_Put_def)
      then show ?thesis using a d by simp
    next
      case False
      then show ?thesis using ents_Entity_Put [OF q, of a] a d by simp
    qed
  qed
next
  case (Remove e key)
  then show ?thesis
    using r a d by (auto simp: Entity_Remove_def detatch_def removeKey_def split: if_splits option.splits)
next
  case (Delete e)
  then show ?thesis
    using r a d
    by (cases e) (auto simp: Entity_Delete_def Let_def fold_detatch_fields split: if_splits)
next
  case (PropRemove q)
  then show ?thesis
    using r a d by (auto simp: Prop_Remove_def detatch_def removeKey_def split: if_splits option.splits)
next
  case (PropPutData q data)
  then show ?thesis
    using r a d by (auto simp: Prop_PutData_def putData_def split: if_splits option.splits)
qed

lemma deleted_exec:
  assumes "a < w_nents w" "w_ents w a = \<lparr>e_u = None, e_props = [], e_deleted = True\<rparr>"
  shows "a < w_nents (snd (exec grow prog w)) \<and>
         w_ents (snd (exec grow prog w)) a = \<lparr>e_u = None, e_props = [], e_deleted = True\<rparr>"
proof -
  let ?P = "\<lambda>w. a < w_nents w \<and> w_ents w a = \<lparr>e_u = None, e_props = [], e_deleted = True\<rparr>"
  have "?P (snd (exec grow prog w))"
  proof (rule exec_preserves [where P = ?P])
    show "\<And>w w'. heapOf w = heapOf w' \<Longrightarrow> ?P w \<Longrightarrow> ?P w'"
      by (auto simp: heapOf_def)
    show "\<And>op w w'. ?P w \<Longrightarrow> do_op grow op w = Inr w' \<Longrightarrow> ?P w'"
      using deleted_do_op by blast
    show "?P w" using assms by simp
  qed
  then show ?thesis .
qed

lemma Entity_Delete_ent:
  "w_ents (Entity_Delete (Some a) w) a = \<lparr>e_u = None, e_props = [], e_deleted = True\<rparr>
   \<and> w_nents (Entity_Delete (Some a) w) = w_nents w"
  by (simp add: Entity_Delete_def Let_def fold_detatch_fields)

lemma Entity_Delete_props:
  "(k, p) \<in> set (e_props (w_ents w a)) \<Longrightarrow>
     Prop_Removed (Entity_Delete (Some a) w) (Some p) \<and> Prop_Entity (Entity_Delete (Some a) w) (Some p) = None"
  by (force simp: Entity_Delete_def Let_def fold_detatch_fields fold_detatch_props
      Prop_Removed_def Prop_Entity_def)

lemma Entity_Delete_again:
  assumes "w_ents w a = \<lparr>e_u = None, e_props = [], e_deleted = True\<rparr>"
  shows "Entity_Delete (Some a) w = w"
proof -
  have "(w_ents w)(a := \<lparr>e_u = None, e_props = [], e_deleted = True\<rparr>) = w_ents w"
    using assms by (metis fun_upd_triv)
  then show ?thesis using assms by (simp add: Entity_Delete_def Let_def)
qed

lemma deleted_calls:
  assumes "w_ents w a = \<lparr>e_u = None, e_props = [], e_deleted = True\<rparr>"
  shows "Entity_Get w a k = None \<and> \<not> Entity_Has w a k
         \<and> Entity_Put grow (Some a) k d w = Inr (None, w)
         \<and> Entity_Remove (Some a) k w = (None, w)"
  using assms by (simp add: Entity_Get_def Entity_Has_def loadProp_def Entity_Put_def Entity_Remove_def)

text \<open>
  Claim C8.  \<open>Delete\<close> on a nil Entity changes nothing.  On an Entity it sets
  \<open>deleted\<close>, empties the map and unlinks the Universe; every Prop that was in the map is
  removed and has no owner; a second \<open>Delete\<close> changes nothing.  Whatever program
  runs afterwards on an allocated Entity, the Entity stays deleted with an empty map:
  \<open>Get\<close> returns nil, \<open>Has\<close> is false, \<open>Put\<close> returns nil and leaves the store as it is,
  and \<open>Delete\<close> changes nothing.
\<close>

theorem Delete_is_final:
  "Entity_Delete None w = w
   \<and> e_deleted (w_ents (Entity_Delete (Some a) w) a)
   \<and> e_props (w_ents (Entity_Delete (Some a) w) a) = []
   \<and> e_u (w_ents (Entity_Delete (Some a) w) a) = None
   \<and> (\<forall>(k, p) \<in> set (e_props (w_ents w a)).
         Prop_Removed (Entity_Delete (Some a) w) (Some p) \<and>
         Prop_Entity (Entity_Delete (Some a) w) (Some p) = None)
   \<and> Entity_Delete (Some a) (Entity_Delete (Some a) w) = Entity_Delete (Some a) w
   \<and> (a < w_nents w \<longrightarrow>
        (\<forall>prog k d.
           e_deleted (w_ents (snd (exec grow prog (Entity_Delete (Some a) w))) a)
           \<and> e_props (w_ents (snd (exec grow prog (Entity_Delete (Some a) w))) a) = []
           \<and> Entity_Get (snd (exec grow prog (Entity_Delete (Some a) w))) a k = None
           \<and> \<not> Entity_Has (snd (exec grow prog (Entity_Delete (Some a) w))) a k
           \<and> Entity_Put grow (Some a) k d (snd (exec grow prog (Entity_Delete (Some a) w))) =
               Inr (None, snd (exec grow prog (Entity_Delete (Some a) w)))
           \<and> Entity_Delete (Some a) (snd (exec grow prog (Entity_Delete (Some a) w))) =
               snd (exec grow prog (Entity_Delete (Some a) w))))"
proof -
  let ?w = "Entity_Delete (Some a) w"
  have e: "w_ents ?w a = \<lparr>e_u = None, e_props = [], e_deleted = True\<rparr>" and n: "w_nents ?w = w_nents w"
    using Entity_Delete_ent [of a w] by simp_all
  have 1: "Entity_Delete None w = w" by (simp add: Entity_Delete_def)
  have 2: "e_deleted (w_ents ?w a) \<and> e_props (w_ents ?w a) = [] \<and> e_u (w_ents ?w a) = None"
    using e by simp
  have 3: "\<forall>(k, p) \<in> set (e_props (w_ents w a)).
         Prop_Removed ?w (Some p) \<and> Prop_Entity ?w (Some p) = None"
    using Entity_Delete_props [of _ _ w a] by blast
  have 4: "Entity_Delete (Some a) ?w = ?w" using e by (rule Entity_Delete_again)
  have 5: "e_deleted (w_ents (snd (exec grow prog ?w)) a)
           \<and> e_props (w_ents (snd (exec grow prog ?w)) a) = []
           \<and> Entity_Get (snd (exec grow prog ?w)) a k = None
           \<and> \<not> Entity_Has (snd (exec grow prog ?w)) a k
           \<and> Entity_Put grow (Some a) k d (snd (exec grow prog ?w)) = Inr (None, snd (exec grow prog ?w))
           \<and> Entity_Delete (Some a) (snd (exec grow prog ?w)) = snd (exec grow prog ?w)"
    if "a < w_nents w" for prog k d
  proof -
    have i: "w_ents (snd (exec grow prog ?w)) a = \<lparr>e_u = None, e_props = [], e_deleted = True\<rparr>"
      using deleted_exec [of a ?w grow prog] that e n by simp
    show ?thesis
      using deleted_calls [OF i, of k grow d] Entity_Delete_again [OF i] i by simp
  qed
  show ?thesis
    using 1 2 3 4 5 by (intro conjI impI allI) blast+
qed

theorem Delete_is_final_witness:
  "2 < w_nents (exThree 0)
   \<and> (''k'', 2) \<in> set (e_props (w_ents (exThree 0) 2))
   \<and> Prop_Removed (Entity_Delete (Some 2) (exThree 0)) (Some 2)
   \<and> Prop_Entity (Entity_Delete (Some 2) (exThree 0)) (Some 2) = None
   \<and> e_deleted (w_ents (Entity_Delete (Some 2) (exThree 0)) 2)
   \<and> Entity_Get (snd (exec exGrow (Do (Put (Some 2) ''k'' []) (Return True))
                      (Entity_Delete (Some 2) (exThree 0)))) 2 ''k'' = None
   \<and> Entity_Put exGrow (Some 2) ''k'' []
        (snd (exec exGrow (Do (Put (Some 2) ''k'' []) (Return True)) (Entity_Delete (Some 2) (exThree 0)))) =
      Inr (None, snd (exec exGrow (Do (Put (Some 2) ''k'' []) (Return True))
                      (Entity_Delete (Some 2) (exThree 0))))"
proof -
  have e: "2 < w_nents (exThree 0)" and t: "(''k'', 2) \<in> set (e_props (w_ents (exThree 0) 2))"
    by (simp_all add: exThree_def)
  show ?thesis
    using e t Delete_is_final [of "exThree 0" 2 exGrow] by blast
qed

text \<open>The key of a Prop never changes, and a Prop is attached to one Entity only.\<close>

lemma owner_do_op:
  assumes w: "wellformed w" and p: "p < w_nprops w" "p_key (w_props w p) = n"
      "p_attached (w_props w p) \<longrightarrow> p_e (w_props w p) = Some a"
    and r: "do_op grow op w = Inr w'"
  shows "p < w_nprops w' \<and> p_key (w_props w' p) = n \<and>
         (p_attached (w_props w' p) \<longrightarrow> p_e (w_props w' p) = Some a)"
proof (cases op)
  case (NewEntity u)
  then show ?thesis using r p by (auto simp: Universe_Entity_def Let_def)
next
  case NewZeroEntity
  then show ?thesis using r p by (auto simp: newZeroEntity_def)
next
  case NewZeroProp
  then show ?thesis using r p by (auto simp: newZeroProp_def)
next
  case (Put e key data)
  show ?thesis
  proof (cases e)
    case None
    then show ?thesis using r Put by (simp add: Entity_Put_def split: if_splits)
  next
    case (Some b)
    then obtain q where q: "Entity_Put grow (Some b) key data w = Inr (q, w')"
      using r Put by (auto split: if_splits sum.splits)
    from w q show ?thesis
      using p by (cases rule: Entity_Put_cases) (auto simp: putData_def)
  qed
next
  case (Remove e key)
  then show ?thesis
    using r p by (auto simp: Entity_Remove_def detatch_def removeKey_def split: if_splits option.splits)
next
  case (Delete e)
  then show ?thesis
    using r p
    by (cases e) (auto simp: Entity_Delete_def Let_def fold_detatch_props fold_detatch_fields split: if_splits)
next
  case (PropRemove q)
  then show ?thesis
    using r p by (auto simp: Prop_Remove_def detatch_def removeKey_def split: if_splits option.splits)
next
  case (PropPutData q data)
  then show ?thesis
    using r p by (auto simp: Prop_PutData_def putData_def split: if_splits option.splits)
qed

text \<open>Only \<open>Put\<close> of its key on its Entity and \<open>PutData\<close> on it write the data of a Prop.\<close>

lemma data_do_op:
  assumes w: "wellformed w" and p: "p < w_nprops w" "p_key (w_props w p) = n"
      "p_attached (w_props w p) \<longrightarrow> p_e (w_props w p) = Some a"
    and ok: "\<not> writes_data a n p op"
    and r: "do_op grow op w = Inr w'"
  shows "p_data (w_props w' p) = p_data (w_props w p)"
proof (cases op)
  case (NewEntity u)
  then show ?thesis using r p by (auto simp: Universe_Entity_def Let_def)
next
  case NewZeroEntity
  then show ?thesis using r p by (auto simp: newZeroEntity_def)
next
  case NewZeroProp
  then show ?thesis using r p by (auto simp: newZeroProp_def)
next
  case (Put e key data)
  show ?thesis
  proof (cases e)
    case None
    then show ?thesis using r Put by (simp add: Entity_Put_def split: if_splits)
  next
    case (Some b)
    then obtain q where q: "Entity_Put grow (Some b) key data w = Inr (q, w')"
      using r Put by (auto split: if_splits sum.splits)
    have nk: "\<not> (b = a \<and> key = n)" using ok Put Some by simp
    from w q show ?thesis
    proof (cases rule: Entity_Put_cases)
      case deleted
      then show ?thesis by simp
    next
      case (found x)
      have "x \<noteq> p" using wellformed_table [OF w found(2)] p nk by auto
      then show ?thesis using found by (simp add: putData_def)
    next
      case fresh
      then show ?thesis using p by simp
    qed
  qed
next
  case (Remove e key)
  then show ?thesis
    using r p by (auto simp: Entity_Remove_def detatch_def removeKey_def split: if_splits option.splits)
next
  case (Delete e)
  then show ?thesis
    using r p
    by (cases e) (auto simp: Entity_Delete_def Let_def fold_detatch_props fold_detatch_fields split: if_splits)
next
  case (PropRemove q)
  then show ?thesis
    using r p by (auto simp: Prop_Remove_def detatch_def removeKey_def split: if_splits option.splits)
next
  case (PropPutData q data)
  then show ?thesis
    using r p ok by (auto simp: Prop_PutData_def putData_def split: if_splits option.splits)
qed

lemma owner_exec:
  assumes "wellformed w" "p < w_nprops w" "p_key (w_props w p) = n"
      "p_attached (w_props w p) \<longrightarrow> p_e (w_props w p) = Some a"
  shows "wellformed (snd (exec grow prog w)) \<and> p < w_nprops (snd (exec grow prog w)) \<and>
         p_key (w_props (snd (exec grow prog w)) p) = n \<and>
         (p_attached (w_props (snd (exec grow prog w)) p) \<longrightarrow>
            p_e (w_props (snd (exec grow prog w)) p) = Some a)"
proof -
  let ?P = "\<lambda>w. wellformed w \<and> p < w_nprops w \<and> p_key (w_props w p) = n \<and>
                (p_attached (w_props w p) \<longrightarrow> p_e (w_props w p) = Some a)"
  have "?P (snd (exec grow prog w))"
  proof (rule exec_preserves [where P = ?P])
    show "\<And>w w'. heapOf w = heapOf w' \<Longrightarrow> ?P w \<Longrightarrow> ?P w'"
      using wellformed_heapOf by (auto simp: heapOf_def)
    show "?P w'" if P: "?P w" and d: "do_op grow op w = Inr w'" for op w w'
    proof -
      have "wellformed w'" using P d wellformed_do_op by blast
      moreover have "p < w_nprops w' \<and> p_key (w_props w' p) = n \<and>
            (p_attached (w_props w' p) \<longrightarrow> p_e (w_props w' p) = Some a)"
        using P by (intro owner_do_op [OF _ _ _ _ d]) simp_all
      ultimately show ?thesis by simp
    qed
    show "?P w" using assms by simp
  qed
  then show ?thesis .
qed

lemma data_exec:
  assumes "wellformed w" "p < w_nprops w" "p_key (w_props w p) = n"
      "p_attached (w_props w p) \<longrightarrow> p_e (w_props w p) = Some a"
    and ok: "all_ops (\<lambda>op. \<not> writes_data a n p op) prog"
  shows "p_data (w_props (snd (exec grow prog w)) p) = p_data (w_props w p)"
proof -
  let ?P = "\<lambda>w'. wellformed w' \<and> p < w_nprops w' \<and> p_key (w_props w' p) = n \<and>
                (p_attached (w_props w' p) \<longrightarrow> p_e (w_props w' p) = Some a) \<and>
                p_data (w_props w' p) = p_data (w_props w p)"
  have "?P (snd (exec grow prog w))"
  proof (rule exec_preserves_when [where P = ?P and ok = "\<lambda>op. \<not> writes_data a n p op"])
    show "\<And>w w'. heapOf w = heapOf w' \<Longrightarrow> ?P w \<Longrightarrow> ?P w'"
      using wellformed_heapOf by (auto simp: heapOf_def)
    show "?P w'" if ok: "\<not> writes_data a n p op" and P: "?P w" and d: "do_op grow op w = Inr w'"
      for op w w'
    proof -
      have "wellformed w'" using P d wellformed_do_op by blast
      moreover have "p < w_nprops w' \<and> p_key (w_props w' p) = n \<and>
            (p_attached (w_props w' p) \<longrightarrow> p_e (w_props w' p) = Some a)"
        using P by (intro owner_do_op [OF _ _ _ _ d]) simp_all
      moreover have "p_data (w_props w' p) = p_data (w_props w p)"
        using P by (intro data_do_op [OF _ _ _ _ ok d]) simp_all
      ultimately show ?thesis using P by simp
    qed
    show "all_ops (\<lambda>op. \<not> writes_data a n p op) prog" by (rule ok)
    show "?P w" using assms by simp
  qed
  then show ?thesis by simp
qed

text \<open>A live Prop is the one \<open>Get\<close> returns for its owner and key.\<close>

lemma Entity_Get_live:
  assumes w: "wellformed w" and k: "p_key (w_props w p) = n"
    and o: "p_attached (w_props w p) \<longrightarrow> p_e (w_props w p) = Some a"
    and l: "\<not> Prop_Removed w (Some p)"
  shows "Entity_Get w a n = Some p"
proof -
  have att: "p_attached (w_props w p)" using l by (simp add: Prop_Removed_def)
  then have t: "tableOf w a n = Some p" using wellformed_attached [OF w att] o k by auto
  then have "e_props (w_ents w a) \<noteq> []" by (auto simp: tableOf_def)
  then have "\<not> e_deleted (w_ents w a)" using wellformed_deleted [OF w] by blast
  then show ?thesis using t att by (simp add: Entity_Get_def loadProp_def tableOf_def Prop_Removed_def)
qed


text \<open>
  Claim C4 says that after \<open>Put(n, v)\<close> the Prop of \<open>n\<close> has the data \<open>v\<close> after any
  further calls, until the Prop is removed or the Entity deleted.  It fails: after
  \<open>Put("k", 1)\<close> and then \<open>Put("k", 2)\<close> on the same Entity, the Prop is not removed, the
  Entity is not deleted, \<open>Get\<close> returns the same Prop, and its data is 2.
\<close>

theorem Put_then_Get_counterexample:
  "Entity_Get exPut1 0 ''k'' = Some 0 \<and> Prop_Data exPut1 (Some 0) = AnyVal 1
   \<and> \<not> Prop_Removed exPut2 (Some 0) \<and> \<not> e_deleted (w_ents exPut2 0)
   \<and> Entity_Get exPut2 0 ''k'' = Some 0
   \<and> Prop_Data exPut2 (Some 0) = AnyVal 2 \<and> Prop_Data exPut2 (Some 0) \<noteq> AnyVal 1"
  by code_simp

text \<open>
  Claim C4, amended.  On an Entity that is allocated and not deleted, \<open>Put(n, v)\<close> with
  one value returns a Prop \<open>p\<close>; right after it \<open>Has(n)\<close> is true, \<open>Get(n)\<close> returns \<open>p\<close> and
  the data of \<open>p\<close> is \<open>v\<close>.  After any program, as long as \<open>p\<close> is not removed (deleting
  the Entity removes it), \<open>Has(n)\<close> is true and \<open>Get(n)\<close> returns \<open>p\<close>; and the data of \<open>p\<close>
  is still \<open>v\<close> when the program has no \<open>Put\<close> of \<open>n\<close> on the Entity and no \<open>PutData\<close> on
  \<open>p\<close>, which overwrite it.
\<close>

theorem Put_then_Get:
  assumes w: "wellformed w" and a: "a < w_nents w" and nd: "\<not> e_deleted (w_ents w a)"
  shows "\<exists>p w1. Entity_Put grow (Some a) n [v] w = Inr (Some p, w1)
           \<and> Entity_Has w1 a n \<and> Entity_Get w1 a n = Some p \<and> Prop_Data w1 (Some p) = v
           \<and> (\<forall>prog. \<not> Prop_Removed (snd (exec grow prog w1)) (Some p) \<longrightarrow>
                 Entity_Has (snd (exec grow prog w1)) a n
                 \<and> Entity_Get (snd (exec grow prog w1)) a n = Some p
                 \<and> (all_ops (\<lambda>op. \<not> writes_data a n p op) prog \<longrightarrow>
                      Prop_Data (snd (exec grow prog w1)) (Some p) = v))"
proof -
  obtain p w1 where put: "Entity_Put grow (Some a) n [v] w = Inr (Some p, w1)"
    and load: "loadProp w1 (Some a) n = Some p"
    using Entity_Put_live [OF nd] by blast
  have w1: "wellformed w1" using a by (intro wellformed_Entity_Put [OF w _ put]) (simp add: isEntity_def)
  have t: "tableOf w1 a n = Some p" using loadProp_Some_table [OF load] by simp
  have p: "p < w_nprops w1" "p_key (w_props w1 p) = n"
      "p_attached (w_props w1 p) \<longrightarrow> p_e (w_props w1 p) = Some a"
    using wellformed_table [OF w1 t] by simp_all
  have d: "p_data (w_props w1 p) = v"
    using w put by (cases rule: Entity_Put_cases) (simp_all add: putData_def packData_def)
  have g1: "Entity_Get w1 a n = Some p" using load by (simp add: Entity_Get_def)
  have later: "Entity_Has (snd (exec grow prog w1)) a n
                 \<and> Entity_Get (snd (exec grow prog w1)) a n = Some p
                 \<and> (all_ops (\<lambda>op. \<not> writes_data a n p op) prog \<longrightarrow>
                      Prop_Data (snd (exec grow prog w1)) (Some p) = v)"
    if live: "\<not> Prop_Removed (snd (exec grow prog w1)) (Some p)" for prog
  proof -
    let ?w = "snd (exec grow prog w1)"
    have i: "wellformed ?w" "p_key (w_props ?w p) = n"
        "p_attached (w_props ?w p) \<longrightarrow> p_e (w_props ?w p) = Some a"
      using owner_exec [OF w1 p, of grow prog] by simp_all
    have g: "Entity_Get ?w a n = Some p" using i live by (rule Entity_Get_live)
    have "Prop_Data ?w (Some p) = v" if "all_ops (\<lambda>op. \<not> writes_data a n p op) prog"
      using data_exec [OF w1 p that, of grow] d by (simp add: Prop_Data_def)
    then show ?thesis using g by (simp add: Entity_Has_def)
  qed
  have "Entity_Has w1 a n \<and> Entity_Get w1 a n = Some p \<and> Prop_Data w1 (Some p) = v"
    using g1 d by (simp add: Entity_Has_def Prop_Data_def)
  then show ?thesis using put later by blast
qed

theorem Put_then_Get_witness:
  "wellformed exOne \<and> 0 < w_nents exOne \<and> \<not> e_deleted (w_ents exOne 0)
   \<and> all_ops (\<lambda>op. \<not> writes_data 0 ''k'' 0 op) (Do (Put (Some 0) ''j'' [AnyVal 2]) (Return True))
   \<and> \<not> Prop_Removed (snd (exec exGrow (Do (Put (Some 0) ''j'' [AnyVal 2]) (Return True)) exPut1)) (Some 0)
   \<and> Entity_Get exPut1 0 ''k'' = Some 0 \<and> Prop_Data exPut1 (Some 0) = AnyVal 1
   \<and> Entity_Get (snd (exec exGrow (Do (Put (Some 0) ''j'' [AnyVal 2]) (Return True)) exPut1)) 0 ''k'' = Some 0
   \<and> Prop_Data (snd (exec exGrow (Do (Put (Some 0) ''j'' [AnyVal 2]) (Return True)) exPut1)) (Some 0) = AnyVal 1"
proof -
  let ?prog = "Do (Put (Some 0) ''j'' [AnyVal 2]) (Return True) :: nat prog"
  have e: "0 < w_nents exOne" "\<not> e_deleted (w_ents exOne 0)" using exOne_entity by simp_all
  obtain p w1 where put: "Entity_Put exGrow (Some 0) ''k'' [AnyVal 1] exOne = Inr (Some p, w1)"
    and now: "Entity_Get w1 0 ''k'' = Some p" "Prop_Data w1 (Some p) = AnyVal 1"
    and later: "\<forall>prog. \<not> Prop_Removed (snd (exec exGrow prog w1)) (Some p) \<longrightarrow>
                 Entity_Has (snd (exec exGrow prog w1)) 0 ''k''
                 \<and> Entity_Get (snd (exec exGrow prog w1)) 0 ''k'' = Some p
                 \<and> (all_ops (\<lambda>op. \<not> writes_data 0 ''k'' p op) prog \<longrightarrow>
                      Prop_Data (snd (exec exGrow prog w1)) (Some p) = AnyVal 1)"
    using Put_then_Get [OF wellformed_exOne e, of exGrow "''k''" "AnyVal 1"] by (elim exE conjE)
  have w1: "w1 = exPut1"
    using put e by (simp add: exPut1_def isEntity_def)
  have p0: "Entity_Get exPut1 0 ''k'' = Some 0" by code_simp
  then have p: "p = 0" using now w1 by simp
  have ok: "all_ops (\<lambda>op. \<not> writes_data 0 ''k'' 0 op) ?prog"
    by simp
  have live: "\<not> Prop_Removed (snd (exec exGrow ?prog exPut1)) (Some 0)" by code_simp
  show ?thesis
    using wellformed_exOne e ok live now later [rule_format, of ?prog] unfolding w1 p by simp
qed

section \<open>Range checks each Prop when it reaches it\<close>

lemma exTwo_reachable: "snd (exec exGrow exTwoSetup emptyWorld) = exTwo"
  by (simp add: exTwoSetup_def exTwo_def ex_defs fun_eq_iff)

lemma wellformed_exTwo: "wellformed exTwo"
  using wellformed_exec [OF wellformed_emptyWorld, of exGrow exTwoSetup] by (simp add: exTwo_reachable)

text \<open>The events of the loop, one after the other.\<close>

lemma rangeProps_loop_events:
  "rangeProps_loop fn b data i w = (evs, r, wz) \<Longrightarrow>
   (evs = [] \<longrightarrow> wz = w) \<and> (evs \<noteq> [] \<longrightarrow> before (hd evs) = w) \<and> length evs \<le> s_len data - i"
proof (induction i w arbitrary: evs r wz rule: rangeProps_loop_induct [where data = data and b = b and fn = fn])
  case (finished i w)
  then show ?case by (simp add: rangeProps_loop_done)
next
  case (missed i w)
  obtain evs1 r1 w1 where l: "rangeProps_loop fn b data (Suc i) (addMiss b w) = (evs1, r1, w1)"
    by (cases "rangeProps_loop fn b data (Suc i) (addMiss b w)") auto
  have "length evs1 \<le> s_len data - Suc i" using missed.IH [OF l] by simp
  then show ?case
    using missed.hyps missed.prems l by (auto simp: rangeProps_loop_miss)
next
  case (continued i w w1)
  obtain evs1 r1 w2 where l: "rangeProps_loop fn b data (Suc i) w1 = (evs1, r1, w2)"
    by (cases "rangeProps_loop fn b data (Suc i) w1") auto
  have "length evs1 \<le> s_len data - Suc i" using continued.IH [OF l] by simp
  then show ?case
    using continued.hyps continued.prems l by (auto simp: rangeProps_loop_continue)
next
  case (stopped i w w1)
  then show ?case by (auto simp: rangeProps_loop_stop)
next
  case (panicked i w f w1)
  then show ?case by (auto simp: rangeProps_loop_panic)
qed

text \<open>Every call of the callback is on a Prop that is not removed when it is called; a
  call that does not return true is the last event; and the next event, or the end of
  the loop, is in the store the callback left.\<close>

lemma rangeProps_loop_call:
  "rangeProps_loop fn b data i w = (evs, r, wz) \<Longrightarrow> evs = xs @ Call p wb res wa # ys \<Longrightarrow>
   \<not> Prop_Removed wb p \<and> fn p wb = (res, wa) \<and> (res \<noteq> Inr True \<longrightarrow> ys = []) \<and>
   (ys = [] \<longrightarrow> wz = wa) \<and> (ys \<noteq> [] \<longrightarrow> before (hd ys) = wa)"
proof (induction i w arbitrary: evs r wz xs
    rule: rangeProps_loop_induct [where data = data and b = b and fn = fn])
  case (finished i w)
  then show ?case by (simp add: rangeProps_loop_done)
next
  case (missed i w)
  obtain evs1 r1 w1 where l: "rangeProps_loop fn b data (Suc i) (addMiss b w) = (evs1, r1, w1)"
    by (cases "rangeProps_loop fn b data (Suc i) (addMiss b w)") auto
  have e: "evs = Miss (s_at w data i) w # evs1" "wz = w1"
    using missed.hyps missed.prems(1) l by (simp_all add: rangeProps_loop_miss)
  then obtain xs' where "xs = Miss (s_at w data i) w # xs'" "evs1 = xs' @ Call p wb res wa # ys"
    using missed.prems(2) by (cases xs) auto
  then show ?case using missed.IH [OF l] e by simp
next
  case (continued i w w1)
  obtain evs1 r1 w2 where l: "rangeProps_loop fn b data (Suc i) w1 = (evs1, r1, w2)"
    by (cases "rangeProps_loop fn b data (Suc i) w1") auto
  have e: "evs = Call (s_at w data i) w (Inr True) w1 # evs1" "wz = w2"
    using continued.hyps continued.prems(1) l by (simp_all add: rangeProps_loop_continue)
  show ?case
  proof (cases xs)
    case Nil
    then have "p = s_at w data i" "wb = w" "res = Inr True" "wa = w1" "ys = evs1"
      using e continued.prems(2) by simp_all
    then show ?thesis
      using continued.hyps rangeProps_loop_events [OF l] e by simp
  next
    case (Cons x xs')
    then have "evs1 = xs' @ Call p wb res wa # ys" using e continued.prems(2) by simp
    then show ?thesis using continued.IH [OF l] e by simp
  qed
next
  case (stopped i w w1)
  have "rangeProps_loop fn b data i w = ([Call (s_at w data i) w (Inr False) w1], None, w1)"
    using stopped.hyps by (rule rangeProps_loop_stop)
  then have "([Call (s_at w data i) w (Inr False) w1], None, w1) = (evs, r, wz)"
    using stopped.prems(1) by simp
  then have "evs = [Call (s_at w data i) w (Inr False) w1]" "wz = w1"
    by auto
  then have "xs = []" "p = s_at w data i" "wb = w" "res = Inr False" "wa = w1" "ys = []"
    using stopped.prems(2) by (simp_all add: append_eq_Cons_conv)
  then show ?case using stopped.hyps \<open>wz = w1\<close> by simp
next
  case (panicked i w f w1)
  have "rangeProps_loop fn b data i w = ([Call (s_at w data i) w (Inl f) w1], Some f, w1)"
    using panicked.hyps by (rule rangeProps_loop_panic)
  then have "([Call (s_at w data i) w (Inl f) w1], Some f, w1) = (evs, r, wz)"
    using panicked.prems(1) by simp
  then have "evs = [Call (s_at w data i) w (Inl f) w1]" "wz = w1"
    by auto
  then have "xs = []" "p = s_at w data i" "wb = w" "res = Inl f" "wa = w1" "ys = []"
    using panicked.prems(2) by (simp_all add: append_eq_Cons_conv)
  then show ?case using panicked.hyps \<open>wz = w1\<close> by simp
qed

text \<open>Every miss is on a Prop that is removed at that moment, and the next event, or the
  end of the loop, is in the store with one more miss counted.\<close>

lemma rangeProps_loop_missed:
  "rangeProps_loop fn b data i w = (evs, r, wz) \<Longrightarrow> evs = xs @ Miss p wb # ys \<Longrightarrow>
   Prop_Removed wb p \<and> (ys = [] \<longrightarrow> wz = addMiss b wb) \<and> (ys \<noteq> [] \<longrightarrow> before (hd ys) = addMiss b wb)"
proof (induction i w arbitrary: evs r wz xs
    rule: rangeProps_loop_induct [where data = data and b = b and fn = fn])
  case (finished i w)
  then show ?case by (simp add: rangeProps_loop_done)
next
  case (missed i w)
  obtain evs1 r1 w1 where l: "rangeProps_loop fn b data (Suc i) (addMiss b w) = (evs1, r1, w1)"
    by (cases "rangeProps_loop fn b data (Suc i) (addMiss b w)") auto
  have e: "evs = Miss (s_at w data i) w # evs1" "wz = w1"
    using missed.hyps missed.prems(1) l by (simp_all add: rangeProps_loop_miss)
  show ?case
  proof (cases xs)
    case Nil
    then have "p = s_at w data i" "wb = w" "ys = evs1"
      using e missed.prems(2) by simp_all
    then show ?thesis
      using missed.hyps rangeProps_loop_events [OF l] e by simp
  next
    case (Cons x xs')
    then have "evs1 = xs' @ Miss p wb # ys" using e missed.prems(2) by simp
    then show ?thesis using missed.IH [OF l] e by simp
  qed
next
  case (continued i w w1)
  obtain evs1 r1 w2 where l: "rangeProps_loop fn b data (Suc i) w1 = (evs1, r1, w2)"
    by (cases "rangeProps_loop fn b data (Suc i) w1") auto
  have e: "evs = Call (s_at w data i) w (Inr True) w1 # evs1" "wz = w2"
    using continued.hyps continued.prems(1) l by (simp_all add: rangeProps_loop_continue)
  then obtain xs' where "xs = Call (s_at w data i) w (Inr True) w1 # xs'" "evs1 = xs' @ Miss p wb # ys"
    using continued.prems(2) by (cases xs) auto
  then show ?case using continued.IH [OF l] e by simp
next
  case (stopped i w w1)
  have "rangeProps_loop fn b data i w = ([Call (s_at w data i) w (Inr False) w1], None, w1)"
    using stopped.hyps by (rule rangeProps_loop_stop)
  then have "([Call (s_at w data i) w (Inr False) w1], None, w1) = (evs, r, wz)"
    using stopped.prems(1) by simp
  then have "evs = [Call (s_at w data i) w (Inr False) w1]"
    by auto
  then show ?case using stopped.prems(2) by (simp add: append_eq_Cons_conv)
next
  case (panicked i w f w1)
  have "rangeProps_loop fn b data i w = ([Call (s_at w data i) w (Inl f) w1], Some f, w1)"
    using panicked.hyps by (rule rangeProps_loop_panic)
  then have "([Call (s_at w data i) w (Inl f) w1], Some f, w1) = (evs, r, wz)"
    using panicked.prems(1) by simp
  then have "evs = [Call (s_at w data i) w (Inl f) w1]"
    by auto
  then show ?case using panicked.prems(2) by (simp add: append_eq_Cons_conv)
qed

text \<open>When the callback leaves the counter of the bucket alone, the loop adds the number
  of its misses to it.\<close>

lemma rangeProps_loop_count:
  assumes fn: "\<And>p w. b_misses (w_buckets (snd (fn p w)) b) = b_misses (w_buckets w b)"
  shows "rangeProps_loop fn b data i w = (evs, r, wz) \<Longrightarrow>
         b_misses (w_buckets wz b) = b_misses (w_buckets w b) + int (missed evs)"
proof (induction i w arbitrary: evs r wz
    rule: rangeProps_loop_induct [where data = data and b = b and fn = fn])
  case (finished i w)
  then show ?case by (simp add: rangeProps_loop_done)
next
  case (missed i w)
  obtain evs1 r1 w1 where l: "rangeProps_loop fn b data (Suc i) (addMiss b w) = (evs1, r1, w1)"
    by (cases "rangeProps_loop fn b data (Suc i) (addMiss b w)") auto
  have e: "evs = Miss (s_at w data i) w # evs1" "wz = w1"
    using missed.hyps missed.prems(1) l by (simp_all add: rangeProps_loop_miss)
  show ?case using missed.IH [OF l] e by (simp add: addMiss_def)
next
  case (continued i w w1)
  obtain evs1 r1 w2 where l: "rangeProps_loop fn b data (Suc i) w1 = (evs1, r1, w2)"
    by (cases "rangeProps_loop fn b data (Suc i) w1") auto
  have e: "evs = Call (s_at w data i) w (Inr True) w1 # evs1" "wz = w2"
    using continued.hyps continued.prems(1) l by (simp_all add: rangeProps_loop_continue)
  show ?case using continued.IH [OF l] e fn [of "s_at w data i" w] continued.hyps by simp
next
  case (stopped i w w1)
  then show ?case using fn [of "s_at w data i" w] by (auto simp: rangeProps_loop_stop)
next
  case (panicked i w f w1)
  then show ?case using fn [of "s_at w data i" w] by (auto simp: rangeProps_loop_panic)
qed

text \<open>With a program as callback: a Prop that is allocated and removed is not passed to
  the callback by the rest of the loop.\<close>

lemma rangeProps_loop_skips_removed:
  "rangeProps_loop (\<lambda>p. exec grow (cb p)) b data i w = (evs, r, wz) \<Longrightarrow>
   wellformed w \<Longrightarrow> q < w_nprops w \<Longrightarrow> \<not> p_attached (w_props w q) \<Longrightarrow>
   Some q \<notin> set (called evs)"
proof (induction i w arbitrary: evs r wz
    rule: rangeProps_loop_induct [where data = data and b = b and fn = "\<lambda>p. exec grow (cb p)"])
  case (finished i w)
  then show ?case by (simp add: rangeProps_loop_done)
next
  case (missed i w)
  obtain evs1 r1 w1 where l: "rangeProps_loop (\<lambda>p. exec grow (cb p)) b data (Suc i) (addMiss b w) = (evs1, r1, w1)"
    by (cases "rangeProps_loop (\<lambda>p. exec grow (cb p)) b data (Suc i) (addMiss b w)") auto
  have e: "evs = Miss (s_at w data i) w # evs1"
    using missed.hyps missed.prems(1) l by (simp_all add: rangeProps_loop_miss)
  have "wellformed (addMiss b w)" using missed.prems(2) wellformed_heapOf heapOf_addMiss by metis
  then have "Some q \<notin> set (called evs1)"
    using missed.IH [OF l] missed.prems by (simp add: addMiss_def)
  then show ?case using e by simp
next
  case (continued i w w1)
  obtain evs1 r1 w2 where l: "rangeProps_loop (\<lambda>p. exec grow (cb p)) b data (Suc i) w1 = (evs1, r1, w2)"
    by (cases "rangeProps_loop (\<lambda>p. exec grow (cb p)) b data (Suc i) w1") auto
  have e: "evs = Call (s_at w data i) w (Inr True) w1 # evs1"
    using continued.hyps continued.prems(1) l by (simp_all add: rangeProps_loop_continue)
  have w1: "w1 = snd (exec grow (cb (s_at w data i)) w)" using continued.hyps by simp
  have "wellformed w1 \<and> q < w_nprops w1 \<and> \<not> p_attached (w_props w1 q)"
    unfolding w1 using continued.prems by (intro removed_exec)
  then have "Some q \<notin> set (called evs1)" using continued.IH [OF l] by simp
  moreover have "s_at w data i \<noteq> Some q"
    using continued.hyps continued.prems by (auto simp: Prop_Removed_def)
  ultimately show ?case using e by simp
next
  case (stopped i w w1)
  have "rangeProps_loop (\<lambda>p. exec grow (cb p)) b data i w =
        ([Call (s_at w data i) w (Inr False) w1], None, w1)"
    using stopped.hyps by (rule rangeProps_loop_stop)
  then have "([Call (s_at w data i) w (Inr False) w1], None, w1) = (evs, r, wz)"
    using stopped.prems(1) by simp
  then have e: "evs = [Call (s_at w data i) w (Inr False) w1]" by auto
  have "s_at w data i \<noteq> Some q"
    using stopped.hyps stopped.prems by (auto simp: Prop_Removed_def)
  then show ?case using e by simp
next
  case (panicked i w f w1)
  have "rangeProps_loop (\<lambda>p. exec grow (cb p)) b data i w =
        ([Call (s_at w data i) w (Inl f) w1], Some f, w1)"
    using panicked.hyps by (rule rangeProps_loop_panic)
  then have "([Call (s_at w data i) w (Inl f) w1], Some f, w1) = (evs, r, wz)"
    using panicked.prems(1) by simp
  then have e: "evs = [Call (s_at w data i) w (Inl f) w1]" by auto
  have "s_at w data i \<noteq> Some q"
    using panicked.hyps panicked.prems by (auto simp: Prop_Removed_def)
  then show ?case using e by simp
qed

lemma rangeProps_loop_removed_later:
  "rangeProps_loop (\<lambda>p. exec grow (cb p)) b data i w = (evs, r, wz) \<Longrightarrow> wellformed w \<Longrightarrow>
   evs = xs @ Call p wb res wa # ys \<Longrightarrow> q < w_nprops wa \<Longrightarrow> Prop_Removed wa (Some q) \<Longrightarrow>
   Some q \<notin> set (called ys)"
proof (induction i w arbitrary: evs r wz xs
    rule: rangeProps_loop_induct [where data = data and b = b and fn = "\<lambda>p. exec grow (cb p)"])
  case (finished i w)
  then show ?case by (simp add: rangeProps_loop_done)
next
  case (missed i w)
  obtain evs1 r1 w1 where l: "rangeProps_loop (\<lambda>p. exec grow (cb p)) b data (Suc i) (addMiss b w) = (evs1, r1, w1)"
    by (cases "rangeProps_loop (\<lambda>p. exec grow (cb p)) b data (Suc i) (addMiss b w)") auto
  have e: "evs = Miss (s_at w data i) w # evs1"
    using missed.hyps missed.prems(1) l by (simp_all add: rangeProps_loop_miss)
  then obtain xs' where x: "evs1 = xs' @ Call p wb res wa # ys"
    using missed.prems(3) by (cases xs) auto
  have "wellformed (addMiss b w)" using missed.prems(2) wellformed_heapOf heapOf_addMiss by metis
  then show ?case using missed.IH [OF l _ x] missed.prems by simp
next
  case (continued i w w1)
  obtain evs1 r1 w2 where l: "rangeProps_loop (\<lambda>p. exec grow (cb p)) b data (Suc i) w1 = (evs1, r1, w2)"
    by (cases "rangeProps_loop (\<lambda>p. exec grow (cb p)) b data (Suc i) w1") auto
  have e: "evs = Call (s_at w data i) w (Inr True) w1 # evs1"
    using continued.hyps continued.prems(1) l by (simp_all add: rangeProps_loop_continue)
  have w1: "w1 = snd (exec grow (cb (s_at w data i)) w)" using continued.hyps by simp
  have wf1: "wellformed w1" unfolding w1 using continued.prems(2) by (rule wellformed_exec)
  show ?case
  proof (cases xs)
    case Nil
    then have "wa = w1" "ys = evs1" using e continued.prems(3) by simp_all
    then show ?thesis
      using rangeProps_loop_skips_removed [OF l wf1, of q] continued.prems(4,5)
      by (simp add: Prop_Removed_def)
  next
    case (Cons x xs')
    then have "evs1 = xs' @ Call p wb res wa # ys" using e continued.prems(3) by simp
    then show ?thesis using continued.IH [OF l wf1] continued.prems by simp
  qed
next
  case (stopped i w w1)
  have "rangeProps_loop (\<lambda>p. exec grow (cb p)) b data i w = ([Call (s_at w data i) w (Inr False) w1], None, w1)"
    using stopped.hyps by (rule rangeProps_loop_stop)
  then have "([Call (s_at w data i) w (Inr False) w1], None, w1) = (evs, r, wz)"
    using stopped.prems(1) by simp
  then have "evs = [Call (s_at w data i) w (Inr False) w1]"
    by auto
  then show ?case using stopped.prems(3) by (simp add: append_eq_Cons_conv)
next
  case (panicked i w f w1)
  have "rangeProps_loop (\<lambda>p. exec grow (cb p)) b data i w = ([Call (s_at w data i) w (Inl f) w1], Some f, w1)"
    using panicked.hyps by (rule rangeProps_loop_panic)
  then have "([Call (s_at w data i) w (Inl f) w1], Some f, w1) = (evs, r, wz)"
    using panicked.prems(1) by simp
  then have "evs = [Call (s_at w data i) w (Inl f) w1]"
    by auto
  then show ?case using panicked.prems(3) by (simp add: append_eq_Cons_conv)
qed

text \<open>The slots of the copied slice are read in order, each in the store of that moment:
  the \<open>j\<close>-th event of the loop is about the element that slot \<open>i + j\<close> of the array holds
  when the loop reaches it, and it is a miss exactly when that element is removed then.\<close>

lemma rangeProps_loop_slots:
  "rangeProps_loop fn b data i w = (evs, r, wz) \<Longrightarrow> j < length evs \<Longrightarrow>
   element (evs ! j) = s_at (before (evs ! j)) data (i + j)
   \<and> i + j < s_len data
   \<and> isMiss (evs ! j) = Prop_Removed (before (evs ! j)) (element (evs ! j))"
proof (induction i w arbitrary: evs r wz j
    rule: rangeProps_loop_induct [where data = data and b = b and fn = fn])
  case (finished i w)
  then show ?case by (simp add: rangeProps_loop_done)
next
  case (missed i w)
  obtain evs1 r1 w1 where l: "rangeProps_loop fn b data (Suc i) (addMiss b w) = (evs1, r1, w1)"
    by (cases "rangeProps_loop fn b data (Suc i) (addMiss b w)") auto
  have e: "evs = Miss (s_at w data i) w # evs1"
    using missed.hyps missed.prems(1) l by (simp_all add: rangeProps_loop_miss)
  show ?case
  proof (cases j)
    case 0
    then show ?thesis using e missed.hyps by simp
  next
    case (Suc j')
    then have "j' < length evs1" using missed.prems(2) e by simp
    then show ?thesis using missed.IH [OF l, of j'] e Suc by simp
  qed
next
  case (continued i w w1)
  obtain evs1 r1 w2 where l: "rangeProps_loop fn b data (Suc i) w1 = (evs1, r1, w2)"
    by (cases "rangeProps_loop fn b data (Suc i) w1") auto
  have e: "evs = Call (s_at w data i) w (Inr True) w1 # evs1"
    using continued.hyps continued.prems(1) l by (simp_all add: rangeProps_loop_continue)
  show ?case
  proof (cases j)
    case 0
    then show ?thesis using e continued.hyps by simp
  next
    case (Suc j')
    then have "j' < length evs1" using continued.prems(2) e by simp
    then show ?thesis using continued.IH [OF l, of j'] e Suc by simp
  qed
next
  case (stopped i w w1)
  have "rangeProps_loop fn b data i w = ([Call (s_at w data i) w (Inr False) w1], None, w1)"
    using stopped.hyps by (rule rangeProps_loop_stop)
  then have "([Call (s_at w data i) w (Inr False) w1], None, w1) = (evs, r, wz)"
    using stopped.prems(1) by simp
  then have e: "evs = [Call (s_at w data i) w (Inr False) w1]" by auto
  then show ?case using stopped.hyps stopped.prems(2) by simp
next
  case (panicked i w f w1)
  have "rangeProps_loop fn b data i w = ([Call (s_at w data i) w (Inl f) w1], Some f, w1)"
    using panicked.hyps by (rule rangeProps_loop_panic)
  then have "([Call (s_at w data i) w (Inl f) w1], Some f, w1) = (evs, r, wz)"
    using panicked.prems(1) by simp
  then have e: "evs = [Call (s_at w data i) w (Inl f) w1]" by auto
  then show ?case using panicked.hyps panicked.prems(2) by simp
qed

text \<open>The loop ends only at the end of the slice, or at a call that does not return true.\<close>

lemma rangeProps_loop_complete:
  "rangeProps_loop fn b data i w = (evs, r, wz) \<Longrightarrow>
   (length evs = s_len data - i \<and> r = None \<and> (\<forall>x \<in> set (answers evs). x = Inr True))
   \<or> (\<exists>xs p wb res. evs = xs @ [Call p wb res wz] \<and> res \<noteq> Inr True
         \<and> r = (case res of Inl f \<Rightarrow> Some f | Inr c \<Rightarrow> None))"
proof (induction i w arbitrary: evs r wz
    rule: rangeProps_loop_induct [where data = data and b = b and fn = fn])
  case (finished i w)
  then show ?case by (simp add: rangeProps_loop_done)
next
  case (missed i w)
  obtain evs1 r1 w1 where l: "rangeProps_loop fn b data (Suc i) (addMiss b w) = (evs1, r1, w1)"
    by (cases "rangeProps_loop fn b data (Suc i) (addMiss b w)") auto
  have e: "evs = Miss (s_at w data i) w # evs1" "r = r1" "wz = w1"
    using missed.hyps missed.prems(1) l by (simp_all add: rangeProps_loop_miss)
  from missed.IH [OF l] show ?case
  proof
    assume "length evs1 = s_len data - Suc i \<and> r1 = None \<and> (\<forall>x \<in> set (answers evs1). x = Inr True)"
    moreover have "Suc (s_len data - Suc i) = s_len data - i" using missed.hyps by simp
    ultimately show ?thesis using e by simp
  next
    assume "\<exists>xs p wb res. evs1 = xs @ [Call p wb res w1] \<and> res \<noteq> Inr True
         \<and> r1 = (case res of Inl f \<Rightarrow> Some f | Inr c \<Rightarrow> None)"
    then obtain xs p wb res where x: "evs1 = xs @ [Call p wb res w1]" "res \<noteq> Inr True"
        "r1 = (case res of Inl f \<Rightarrow> Some f | Inr c \<Rightarrow> None)" by (elim exE conjE)
    have "evs = (Miss (s_at w data i) w # xs) @ [Call p wb res wz]" using e x by simp
    then show ?thesis using x e by blast
  qed
next
  case (continued i w w1)
  obtain evs1 r1 w2 where l: "rangeProps_loop fn b data (Suc i) w1 = (evs1, r1, w2)"
    by (cases "rangeProps_loop fn b data (Suc i) w1") auto
  have e: "evs = Call (s_at w data i) w (Inr True) w1 # evs1" "r = r1" "wz = w2"
    using continued.hyps continued.prems(1) l by (simp_all add: rangeProps_loop_continue)
  from continued.IH [OF l] show ?case
  proof
    assume "length evs1 = s_len data - Suc i \<and> r1 = None \<and> (\<forall>x \<in> set (answers evs1). x = Inr True)"
    moreover have "Suc (s_len data - Suc i) = s_len data - i" using continued.hyps by simp
    ultimately show ?thesis using e by simp
  next
    assume "\<exists>xs p wb res. evs1 = xs @ [Call p wb res w2] \<and> res \<noteq> Inr True
         \<and> r1 = (case res of Inl f \<Rightarrow> Some f | Inr c \<Rightarrow> None)"
    then obtain xs p wb res where x: "evs1 = xs @ [Call p wb res w2]" "res \<noteq> Inr True"
        "r1 = (case res of Inl f \<Rightarrow> Some f | Inr c \<Rightarrow> None)" by (elim exE conjE)
    have "evs = (Call (s_at w data i) w (Inr True) w1 # xs) @ [Call p wb res wz]" using e x by simp
    then show ?thesis using x e by blast
  qed
next
  case (stopped i w w1)
  have "rangeProps_loop fn b data i w = ([Call (s_at w data i) w (Inr False) w1], None, w1)"
    using stopped.hyps by (rule rangeProps_loop_stop)
  then have "([Call (s_at w data i) w (Inr False) w1], None, w1) = (evs, r, wz)"
    using stopped.prems(1) by simp
  then have e: "evs = [] @ [Call (s_at w data i) w (Inr False) wz]" "r = None" by auto
  show ?case
    by (rule disjI2, rule exI [of _ "[]"], rule exI [of _ "s_at w data i"], rule exI [of _ w],
        rule exI [of _ "Inr False"]) (use e in simp)
next
  case (panicked i w f w1)
  have "rangeProps_loop fn b data i w = ([Call (s_at w data i) w (Inl f) w1], Some f, w1)"
    using panicked.hyps by (rule rangeProps_loop_panic)
  then have "([Call (s_at w data i) w (Inl f) w1], Some f, w1) = (evs, r, wz)"
    using panicked.prems(1) by simp
  then have e: "evs = [] @ [Call (s_at w data i) w (Inl f) wz]" "r = Some f" by auto
  show ?case
    by (rule disjI2, rule exI [of _ "[]"], rule exI [of _ "s_at w data i"], rule exI [of _ w],
        rule exI [of _ "Inl f"]) (use e in simp)
qed

text \<open>When the callback never writes the array under the slice, the events are about the
  elements that the slice had when it was copied.\<close>

lemma s_at_addMiss: "s_at (addMiss b w) data k = s_at w data k"
  by (simp add: s_at_def addMiss_def)

lemma rangeProps_loop_stable:
  assumes fn: "\<And>p w k. s_at (snd (fn p w)) data k = s_at w data k"
  shows "rangeProps_loop fn b data i w = (evs, r, wz) \<Longrightarrow> j < length evs \<Longrightarrow>
         s_at (before (evs ! j)) data k = s_at w data k"
proof (induction i w arbitrary: evs r wz j
    rule: rangeProps_loop_induct [where data = data and b = b and fn = fn])
  case (finished i w)
  then show ?case by (simp add: rangeProps_loop_done)
next
  case (missed i w)
  obtain evs1 r1 w1 where l: "rangeProps_loop fn b data (Suc i) (addMiss b w) = (evs1, r1, w1)"
    by (cases "rangeProps_loop fn b data (Suc i) (addMiss b w)") auto
  have e: "evs = Miss (s_at w data i) w # evs1"
    using missed.hyps missed.prems(1) l by (simp_all add: rangeProps_loop_miss)
  show ?case
  proof (cases j)
    case 0
    then show ?thesis using e by simp
  next
    case (Suc j')
    then have "j' < length evs1" using missed.prems(2) e by simp
    then show ?thesis using missed.IH [OF l, of j'] e Suc by (simp add: s_at_addMiss)
  qed
next
  case (continued i w w1)
  obtain evs1 r1 w2 where l: "rangeProps_loop fn b data (Suc i) w1 = (evs1, r1, w2)"
    by (cases "rangeProps_loop fn b data (Suc i) w1") auto
  have e: "evs = Call (s_at w data i) w (Inr True) w1 # evs1"
    using continued.hyps continued.prems(1) l by (simp_all add: rangeProps_loop_continue)
  have w1: "s_at w1 data k = s_at w data k"
    using fn [of "s_at w data i" w k] continued.hyps by simp
  show ?case
  proof (cases j)
    case 0
    then show ?thesis using e by simp
  next
    case (Suc j')
    then have "j' < length evs1" using continued.prems(2) e by simp
    then show ?thesis using continued.IH [OF l, of j'] e Suc w1 by simp
  qed
next
  case (stopped i w w1)
  have "rangeProps_loop fn b data i w = ([Call (s_at w data i) w (Inr False) w1], None, w1)"
    using stopped.hyps by (rule rangeProps_loop_stop)
  then have "([Call (s_at w data i) w (Inr False) w1], None, w1) = (evs, r, wz)"
    using stopped.prems(1) by simp
  then have e: "evs = [Call (s_at w data i) w (Inr False) w1]" by auto
  then show ?case using stopped.prems(2) by simp
next
  case (panicked i w f w1)
  have "rangeProps_loop fn b data i w = ([Call (s_at w data i) w (Inl f) w1], Some f, w1)"
    using panicked.hyps by (rule rangeProps_loop_panic)
  then have "([Call (s_at w data i) w (Inl f) w1], Some f, w1) = (evs, r, wz)"
    using panicked.prems(1) by simp
  then have e: "evs = [Call (s_at w data i) w (Inl f) w1]" by auto
  then show ?case using panicked.prems(2) by simp
qed

lemma rangeProps_snapshot:
  assumes l: "rangeProps fn b w = (evs, r, wz)"
    and fn: "\<And>p w' k. s_at (snd (fn p w')) (b_data (w_buckets w b)) k =
                        s_at w' (b_data (w_buckets w b)) k"
  shows "map element evs = take (length evs) (s_elems w (b_data (w_buckets w b)))"
proof (rule nth_equalityI)
  let ?d = "b_data (w_buckets w b)"
  have l': "rangeProps_loop fn b ?d 0 w = (evs, r, wz)" using l by (simp add: rangeProps_def)
  have len: "length evs \<le> s_len ?d" using rangeProps_loop_events [OF l'] by simp
  then show "length (map element evs) = length (take (length evs) (s_elems w ?d))"
    by (simp add: s_elems_def)
  fix j assume "j < length (map element evs)"
  then have j: "j < length evs" by simp
  have "element (evs ! j) = s_at (before (evs ! j)) ?d j"
    using rangeProps_loop_slots [OF l' j] by simp
  also have "\<dots> = s_at w ?d j"
    using rangeProps_loop_stable [of fn ?d b 0 w evs r wz j j] fn l' j by simp
  finally show "map element evs ! j = take (length evs) (s_elems w ?d) ! j"
    using j len by (simp add: s_elems_def)
qed

text \<open>
  \<open>rangeProps\<close> with any callback \<open>fn\<close>, on any bucket and store; \<open>evs\<close> are the
  events of its loop and \<open>wz\<close> is the store it leaves.
  \<^item> Every call of \<open>fn\<close> is on a Prop that is not removed in the store at the moment of the
    call.  A call that does not return true (it returns false, or panics) is the last
    event, and the loop ends in the store that call left.
  \<^item> Every miss is on a Prop that is removed at that moment, and the loop goes on (or
    ends) in the store with the miss counter of the bucket incremented by one.
  \<^item> The loop starts in the given store and has at most as many events as the slice
    had elements when it was copied.
  \<^item> When \<open>fn\<close> never changes the miss counter of the bucket, the counter grows by
    the number of misses.
  \<^item> When \<open>fn\<close> is a program and the store is well-formed: a Prop that is removed in the
    store that a call of \<open>fn\<close> left (because that call or an earlier one removed it, or
    it was removed before) is not passed to \<open>fn\<close> by the rest of the loop.
\<close>

lemma rangeProps_events:
  assumes "rangeProps fn b w = (evs, r, wz)"
  shows "(\<forall>xs p wb res wa ys. evs = xs @ Call p wb res wa # ys \<longrightarrow>
            \<not> Prop_Removed wb p \<and> fn p wb = (res, wa) \<and> (res \<noteq> Inr True \<longrightarrow> ys = []) \<and>
            (ys = [] \<longrightarrow> wz = wa) \<and> (ys \<noteq> [] \<longrightarrow> before (hd ys) = wa))
       \<and> (\<forall>xs p wb ys. evs = xs @ Miss p wb # ys \<longrightarrow>
            Prop_Removed wb p \<and> (ys = [] \<longrightarrow> wz = addMiss b wb) \<and>
            (ys \<noteq> [] \<longrightarrow> before (hd ys) = addMiss b wb))
       \<and> (evs = [] \<longrightarrow> wz = w) \<and> (evs \<noteq> [] \<longrightarrow> before (hd evs) = w)
       \<and> length evs \<le> s_len (b_data (w_buckets w b))
       \<and> ((\<forall>p w. b_misses (w_buckets (snd (fn p w)) b) = b_misses (w_buckets w b)) \<longrightarrow>
            b_misses (w_buckets wz b) = b_misses (w_buckets w b) + int (missed evs))
       \<and> (\<forall>grow cb xs p wb res wa ys q.
            fn = (\<lambda>p. exec grow (cb p)) \<and> wellformed w \<and> evs = xs @ Call p wb res wa # ys \<and>
            q < w_nprops wa \<and> Prop_Removed wa (Some q) \<longrightarrow> Some q \<notin> set (called ys))"
proof -
  let ?d = "b_data (w_buckets w b)"
  have l: "rangeProps_loop fn b ?d 0 w = (evs, r, wz)" using assms by (simp add: rangeProps_def)
  have 1: "\<forall>xs p wb res wa ys. evs = xs @ Call p wb res wa # ys \<longrightarrow>
            \<not> Prop_Removed wb p \<and> fn p wb = (res, wa) \<and> (res \<noteq> Inr True \<longrightarrow> ys = []) \<and>
            (ys = [] \<longrightarrow> wz = wa) \<and> (ys \<noteq> [] \<longrightarrow> before (hd ys) = wa)"
    using rangeProps_loop_call [OF l] by blast
  have 2: "\<forall>xs p wb ys. evs = xs @ Miss p wb # ys \<longrightarrow>
            Prop_Removed wb p \<and> (ys = [] \<longrightarrow> wz = addMiss b wb) \<and>
            (ys \<noteq> [] \<longrightarrow> before (hd ys) = addMiss b wb)"
    using rangeProps_loop_missed [OF l] by blast
  have 3: "evs = [] \<longrightarrow> wz = w" "evs \<noteq> [] \<longrightarrow> before (hd evs) = w"
      "length evs \<le> s_len (b_data (w_buckets w b))"
    using rangeProps_loop_events [OF l] by simp_all
  have 4: "(\<forall>p w. b_misses (w_buckets (snd (fn p w)) b) = b_misses (w_buckets w b)) \<longrightarrow>
            b_misses (w_buckets wz b) = b_misses (w_buckets w b) + int (missed evs)"
    using rangeProps_loop_count [OF _ l] by blast
  have 5: "Some q \<notin> set (called ys)"
    if "fn = (\<lambda>p. exec grow (cb p))" "wellformed w" "evs = xs @ Call p wb res wa # ys"
      "q < w_nprops wa" "Prop_Removed wa (Some q)" for grow cb xs p wb res wa ys q
    using rangeProps_loop_removed_later [of grow cb b ?d 0 w evs r wz xs p wb res wa ys q] l that
    by simp
  have 6: "\<forall>grow cb xs p wb res wa ys q.
            fn = (\<lambda>p. exec grow (cb p)) \<and> wellformed w \<and> evs = xs @ Call p wb res wa # ys \<and>
            q < w_nprops wa \<and> Prop_Removed wa (Some q) \<longrightarrow> Some q \<notin> set (called ys)"
  proof (intro allI impI)
    fix grow cb xs p wb res wa ys q
    assume a: "fn = (\<lambda>p. exec grow (cb p)) \<and> wellformed w \<and> evs = xs @ Call p wb res wa # ys \<and>
            q < w_nprops wa \<and> Prop_Removed wa (Some q)"
    show "Some q \<notin> set (called ys)"
      by (rule 5 [of grow cb xs p wb res wa ys q]) (use a in simp_all)
  qed
  show ?thesis
    by (rule conjI [OF 1 conjI [OF 2 conjI [OF 3(1) conjI [OF 3(2) conjI [OF 3(3) conjI [OF 4 6]]]]]])
qed

text \<open>Two Entities have \<open>k\<close>, and the callback removes \<open>k\<close> from both: the callback is
  called once, on the first Prop, and the second Prop counts as a miss.\<close>

lemma rangeProps_two_Entities:
  "wellformed exTwo
   \<and> Entity_Get exTwo 0 ''k'' = Some 0 \<and> Entity_Get exTwo 1 ''k'' = Some 1
   \<and> s_elems exTwo (b_data (w_buckets exTwo 0)) = [Some 0, Some 1]
   \<and> (\<forall>p w. b_misses (w_buckets (snd (exec exGrow (exRemoveBoth p) w)) 0) = b_misses (w_buckets w 0))
   \<and> called (fst (rangeProps (\<lambda>p. exec exGrow (exRemoveBoth p)) 0 exTwo)) = [Some 0]
   \<and> missed (fst (rangeProps (\<lambda>p. exec exGrow (exRemoveBoth p)) 0 exTwo)) = 1
   \<and> b_misses (w_buckets (snd (snd (rangeProps (\<lambda>p. exec exGrow (exRemoveBoth p)) 0 exTwo))) 0) =
       b_misses (w_buckets exTwo 0) + 1"
proof -
  let ?fn = "\<lambda>p. exec exGrow (exRemoveBoth p)"
  obtain evs r wz where l: "rangeProps ?fn 0 exTwo = (evs, r, wz)"
    by (cases "rangeProps ?fn 0 exTwo") auto
  have keep: "\<forall>p w. b_misses (w_buckets (snd (?fn p w)) 0) = b_misses (w_buckets w 0)"
    by (simp add: exRemoveBoth_def Entity_Remove_def detatch_def removeKey_def isEntity_def
        split: option.splits)
  have c: "called (fst (rangeProps ?fn 0 exTwo)) = [Some 0]" by code_simp
  have m: "missed (fst (rangeProps ?fn 0 exTwo)) = 1" by code_simp
  have g: "Entity_Get exTwo 0 ''k'' = Some 0" "Entity_Get exTwo 1 ''k'' = Some 1"
      "s_elems exTwo (b_data (w_buckets exTwo 0)) = [Some 0, Some 1]" by code_simp+
  have "(\<forall>p w. b_misses (w_buckets (snd (?fn p w)) 0) = b_misses (w_buckets w 0)) \<longrightarrow>
        b_misses (w_buckets wz 0) = b_misses (w_buckets exTwo 0) + int (missed evs)"
    using rangeProps_events [OF l] by (elim conjE)
  then have "b_misses (w_buckets wz 0) = b_misses (w_buckets exTwo 0) + int (missed evs)"
    using keep by (rule mp)
  then have "b_misses (w_buckets (snd (snd (rangeProps ?fn 0 exTwo))) 0) = b_misses (w_buckets exTwo 0) + 1"
    using l m by simp
  then have f: "b_misses (w_buckets (snd (snd (rangeProps ?fn 0 exTwo))) 0) =
       b_misses (w_buckets exTwo 0) + 1" .
  show ?thesis
    by (rule conjI [OF wellformed_exTwo conjI [OF g(1) conjI [OF g(2) conjI [OF g(3)
          conjI [OF keep conjI [OF c conjI [OF m f]]]]]]])
qed

text \<open>
  Claim C2, at a run where it fails.  Three Entities put \<open>k\<close>, the second removes it,
  \<open>Range\<close> over \<open>k\<close> is called 499 times, and then a \<open>Range\<close> over \<open>k\<close> runs a callback
  that, on its first call, ranges over \<open>k\<close> and puts \<open>k\<close> on a new Entity; the callback
  always returns true.  When this last \<open>Range\<close> copies the slice, the slice
  holds the Props 0, 1 and 2, of which 0 and 2 are live.  By the claim each of the three
  is checked when the loop reaches it: 0 and 2 are passed to the callback and 1 counts as
  a miss.  The loop finds the Props 0, 1 and 3 in the three slots: the nested \<open>Range\<close>
  compacts the bucket in place, which takes Prop 2 out of the array the loop is reading,
  and the \<open>Put\<close> appends Prop 3 there.  Prop 2 is live in the store of every event and at
  the end, and its Entity still has it, but it is neither passed to the callback nor
  counted as a miss.
\<close>

theorem Range_passes_over_live_Prop:
  "s_elems (snd (exec exGrow (exSetup (exSweeps 499 (Return True))) emptyWorld))
     (b_data (w_buckets (snd (exec exGrow (exSetup (exSweeps 499 (Return True))) emptyWorld)) 0)) =
     [Some 0, Some 1, Some 2]
   \<and> map (Prop_Removed (snd (exec exGrow (exSetup (exSweeps 499 (Return True))) emptyWorld)))
       [Some 0, Some 1, Some 2] = [False, True, False]
   \<and> map element (fst (propDB_Range 0 ''k'' (\<lambda>p. exec exGrow (exCallback p))
         (snd (exec exGrow (exSetup (exSweeps 499 (Return True))) emptyWorld)))) =
       [Some 0, Some 1, Some 3]
   \<and> called (fst (propDB_Range 0 ''k'' (\<lambda>p. exec exGrow (exCallback p))
         (snd (exec exGrow (exSetup (exSweeps 499 (Return True))) emptyWorld)))) =
       [Some 0, Some 3]
   \<and> skipped (fst (propDB_Range 0 ''k'' (\<lambda>p. exec exGrow (exCallback p))
         (snd (exec exGrow (exSetup (exSweeps 499 (Return True))) emptyWorld)))) =
       [Some 1]
   \<and> answers (fst (propDB_Range 0 ''k'' (\<lambda>p. exec exGrow (exCallback p))
         (snd (exec exGrow (exSetup (exSweeps 499 (Return True))) emptyWorld)))) =
       [Inr True, Inr True]
   \<and> fst (snd (propDB_Range 0 ''k'' (\<lambda>p. exec exGrow (exCallback p))
         (snd (exec exGrow (exSetup (exSweeps 499 (Return True))) emptyWorld)))) = None
   \<and> map (\<lambda>e. Prop_Removed (before e) (Some 2))
       (fst (propDB_Range 0 ''k'' (\<lambda>p. exec exGrow (exCallback p))
         (snd (exec exGrow (exSetup (exSweeps 499 (Return True))) emptyWorld)))) =
       [False, False, False]
   \<and> map (Prop_Removed (snd (snd (propDB_Range 0 ''k'' (\<lambda>p. exec exGrow (exCallback p))
         (snd (exec exGrow (exSetup (exSweeps 499 (Return True))) emptyWorld))))))
       [Some 0, Some 1, Some 2, Some 3] = [False, True, False, False]
   \<and> Entity_Get (snd (snd (propDB_Range 0 ''k'' (\<lambda>p. exec exGrow (exCallback p))
         (snd (exec exGrow (exSetup (exSweeps 499 (Return True))) emptyWorld))))) 2 ''k'' = Some 2"
proof -
  have a: "snd (exec exGrow (exSetup (exSweeps 499 (Return True))) emptyWorld) = exThree 499"
    by (simp add: exThree_reachable)
  have c: "s_elems (exThree 499) (b_data (w_buckets (exThree 499) 0)) = [Some 0, Some 1, Some 2]
   \<and> map (Prop_Removed (exThree 499)) [Some 0, Some 1, Some 2] = [False, True, False]
   \<and> map element (fst (propDB_Range 0 ''k'' (\<lambda>p. exec exGrow (exCallback p)) (exThree 499))) =
       [Some 0, Some 1, Some 3]
   \<and> called (fst (propDB_Range 0 ''k'' (\<lambda>p. exec exGrow (exCallback p)) (exThree 499))) =
       [Some 0, Some 3]
   \<and> skipped (fst (propDB_Range 0 ''k'' (\<lambda>p. exec exGrow (exCallback p)) (exThree 499))) =
       [Some 1]
   \<and> answers (fst (propDB_Range 0 ''k'' (\<lambda>p. exec exGrow (exCallback p)) (exThree 499))) =
       [Inr True, Inr True]
   \<and> fst (snd (propDB_Range 0 ''k'' (\<lambda>p. exec exGrow (exCallback p)) (exThree 499))) = None
   \<and> map (\<lambda>e. Prop_Removed (before e) (Some 2))
       (fst (propDB_Range 0 ''k'' (\<lambda>p. exec exGrow (exCallback p)) (exThree 499))) =
       [False, False, False]
   \<and> map (Prop_Removed (snd (snd (propDB_Range 0 ''k'' (\<lambda>p. exec exGrow (exCallback p))
         (exThree 499)))))
       [Some 0, Some 1, Some 2, Some 3] = [False, True, False, False]
   \<and> Entity_Get (snd (snd (propDB_Range 0 ''k'' (\<lambda>p. exec exGrow (exCallback p))
         (exThree 499)))) 2 ''k'' = Some 2"
    by code_simp
  show ?thesis
    using c by (simp only: a)
qed

end
